theory Spec2Isabelle
  imports Main "HOL-Library.Word"
begin

unbundle bit_operations_syntax

section \<open>The EPC page cache of arch/x86/kernel/cpu/sgx/main.c\<close>

text \<open>
  The model is sequential: every function of main.c becomes a function on an explicit
  machine state, and holding a spinlock or mutex means that the function's steps are
  not interleaved with anything else.  Pages, enclaves, enclave pages and address
  spaces are referred to by handles (natural numbers), as the C code refers to them by
  pointers.  Calls that leave main.c (hardware ENCLS leaves, the enclave module, the
  scheduler) are recorded in a trace; where such a call returns a value the value is
  taken from an oracle that is a parameter of the model.  The CPU set of an address
  space, \<^verbatim>\<open>mm_cpumask(mm)\<close>, is written by the other CPUs while the code of main.c
  runs; what a read of it gives is taken from the oracle as well, and depends on the
  calls made before the read.

  The model is that of a kernel built without \<^verbatim>\<open>CONFIG_CGROUP_SGX_EPC\<close>: the
  helpers of the charge-group overlay are not part of main.c.  The per-page
  \<^verbatim>\<open>epc_cg\<close> back-pointer is kept, so that \<^verbatim>\<open>sgx_lru\<close> and the free path read as
  in the source; without the overlay it is always \<open>None\<close>.
\<close>

subsection \<open>Data\<close>

type_synonym page_ref = nat
type_synonym encl_ref = nat
type_synonym mm_ref = nat

text \<open>The flag bits of \<^verbatim>\<open>sgx_epc_page.desc\<close>; the remaining bits of the descriptor
  word (physical address and section index) are the fields \<open>pa\<close> and \<open>section_idx\<close>.
  The lists of the C code are kept as lists of page handles in their heads; of the
  member \<^verbatim>\<open>list\<close> of a page only \<open>list_poison\<close> is kept: \<^verbatim>\<open>list_del\<close> has stored
  \<^verbatim>\<open>LIST_POISON1\<close> and \<^verbatim>\<open>LIST_POISON2\<close> in the node and nothing has linked it
  since.  The node of a page that is on no list and not poisoned is linked to itself,
  as \<^verbatim>\<open>list_del_init\<close> leaves it; main.c links every descriptor right after
  \<^verbatim>\<open>kzalloc\<close>, so that it never meets a node of \<^verbatim>\<open>NULL\<close> pointers.\<close>

datatype epc_flag =
    SGX_EPC_PAGE_ENCLAVE
  | SGX_EPC_PAGE_VERSION_ARRAY
  | SGX_EPC_PAGE_RECLAIMABLE
  | SGX_EPC_PAGE_RECLAIM_IN_PROGRESS

record sgx_epc_page =
  pa :: "64 word"
  section_idx :: nat
  desc :: "epc_flag set"
  owner :: nat
  epc_cg :: "nat option"
  list_poison :: bool

record sgx_epc_section =
  page_list :: "page_ref list"
  unsanitized_page_list :: "page_ref list"
  free_cnt :: "64 word"

record sgx_epc_lru =
  reclaimable :: "page_ref list"
  unreclaimable :: "page_ref list"

datatype encl_flag =
    SGX_ENCL_CREATED
  | SGX_ENCL_INITIALIZED
  | SGX_ENCL_DEAD
  | SGX_ENCL_OOM

record sgx_va_page =
  va_epc_page :: page_ref
  slots :: "bool list"

record sgx_encl =
  encl_flags :: "encl_flag set"
  refcount :: nat
  secs_child_cnt :: "32 word"
  secs_epc_page :: "page_ref option"
  va_pages :: "sgx_va_page list"
  mm_list :: "mm_ref list"
  base :: "64 word"
  encl_size :: "64 word"
  cpumask :: "nat set"

text \<open>Of the descriptor word \<^verbatim>\<open>sgx_encl_page.desc\<close>: the flag
  \<^verbatim>\<open>SGX_ENCL_PAGE_RECLAIMED\<close>, the bits that hold the offset of the slot in the
  version page (all clear when no offset is recorded), and the address bits.\<close>

record sgx_encl_page =
  encl :: encl_ref
  reclaimed :: bool
  va_offset :: nat
  va_page :: "page_ref option"
  epc_page :: "page_ref option"
  page_addr :: "64 word"

record vm_area_struct =
  vm_start :: "64 word"
  vm_end :: "64 word"
  vm_ops :: nat
  vm_private_data :: nat

record mm_struct =
  mm_users :: nat
  mmap :: "vm_area_struct list"

text \<open>Calls that leave main.c.\<close>

datatype event =
    EREMOVE page_ref
  | EBLOCK page_ref
  | ETRACK page_ref
  | EWB page_ref page_ref nat
  | ON_EACH_CPU_MASK "nat set"
  | ENCLS_WARN string
  | WARN string
  | KTHREAD_SHOULD_STOP
  | SIGNAL_PENDING
  | COND_RESCHED
  | WAKE_UP
  | ENCL_GET_BACKING encl_ref nat
  | ENCL_PUT_BACKING "nat option"
  | TEST_AND_CLEAR_YOUNG mm_ref nat
  | ZAP_VMA_PTES mm_ref "64 word"
  | ZAP_PAGE_RANGE mm_ref "64 word" "64 word"
  | ENCL_DESTROY encl_ref
  | ENCL_RELEASE encl_ref
  | VIRT_EPC_OOM page_ref
  | CGROUP_UNCHARGE nat bool
  | KZALLOC
  | MEMREMAP "64 word" "64 word"
  | MEMUNMAP nat
  | MMPUT mm_ref

record sgx_state =
  pages :: "page_ref \<Rightarrow> sgx_epc_page"
  sgx_epc_sections :: "nat \<Rightarrow> sgx_epc_section"
  sgx_nr_epc_sections :: nat
  lrus :: "nat option \<Rightarrow> sgx_epc_lru"
  encls :: "encl_ref \<Rightarrow> sgx_encl"
  encl_pages :: "nat \<Rightarrow> sgx_encl_page"
  mms :: "mm_ref \<Rightarrow> mm_struct"
  trace :: "event list"

text \<open>What the environment answers: \<open>ret x ev k\<close> is the value returned by the
  call \<open>ev\<close> when the same call has been made \<open>k\<close> times before.\<close>

text \<open>\<open>mm_cpumask x m tr\<close> is what a read of \<^verbatim>\<open>mm_cpumask(mm)\<close> of the address
  space \<open>m\<close> gives when the calls \<open>tr\<close> have been made: the CPUs that run in the
  address space may change while \<^verbatim>\<open>ETRACK\<close> or \<^verbatim>\<open>EWB\<close> is executed.\<close>

text \<open>Further parameters: the reference counting of the virtualization module, the
  address of \<^verbatim>\<open>sgx_vm_ops\<close>, the predicate \<^verbatim>\<open>encls_failed\<close> of encls.h, the macro
  \<^verbatim>\<open>SGX_ENCL_PAGE_INDEX\<close> of encl.h (on handles of enclave pages) and the two
  watermarks of sgx.h.\<close>

record ext =
  ret :: "event \<Rightarrow> nat \<Rightarrow> int"
  mm_cpumask :: "mm_ref \<Rightarrow> event list \<Rightarrow> nat set"
  virt_epc_get_ref :: "page_ref \<Rightarrow> bool"
  sgx_vm_ops :: nat
  encls_failed :: "int \<Rightarrow> bool"
  SGX_ENCL_PAGE_INDEX :: "nat \<Rightarrow> nat"
  SGX_NR_LOW_PAGES :: nat
  SGX_NR_HIGH_PAGES :: nat

definition emit :: "event \<Rightarrow> sgx_state \<Rightarrow> sgx_state" where
  "emit ev s = s\<lparr>trace := trace s @ [ev]\<rparr>"

definition call :: "ext \<Rightarrow> event \<Rightarrow> sgx_state \<Rightarrow> int \<times> sgx_state" where
  "call x ev s = (ret x ev (count_list (trace s) ev), emit ev s)"

text \<open>Ways in which the kernel stops instead of returning: a \<^verbatim>\<open>NULL\<close> pointer is
  dereferenced, \<^verbatim>\<open>list_first_entry\<close> is applied to an empty list, or \<^verbatim>\<open>list_del\<close>
  follows the poisoned pointers of a node that was deleted before.\<close>

datatype fault = NULL_POINTER_DEREFERENCE | EMPTY_LIST_ENTRY | LIST_POISON_DEREFERENCE

text \<open>Error numbers of the kernel.\<close>

datatype errno = ENOMEM | EBUSY | ERESTARTSYS | EINVAL

text \<open>Modelled from the spec: the macro \<^verbatim>\<open>SGX_EPC_PAGE_RECLAIM_FLAGS\<close> is
  declared in sgx.h, which is not part of the sources at hand; the spec speaks of
  the two reclaim flags \<^verbatim>\<open>RECLAIMABLE\<close> and \<^verbatim>\<open>RECLAIM_IN_PROGRESS\<close>.\<close>

definition SGX_EPC_PAGE_RECLAIM_FLAGS :: "epc_flag set" where
  "SGX_EPC_PAGE_RECLAIM_FLAGS = {SGX_EPC_PAGE_RECLAIMABLE, SGX_EPC_PAGE_RECLAIM_IN_PROGRESS}"

text \<open>Modelled from the spec: \<^verbatim>\<open>SGX_NR_TO_SCAN\<close> is declared in sgx.h; the spec
  gives its value.\<close>

definition SGX_NR_TO_SCAN :: int where
  "SGX_NR_TO_SCAN = 16"

definition SGX_MAX_NR_TO_RECLAIM :: nat where
  "SGX_MAX_NR_TO_RECLAIM = 32"

definition SGX_ENCL_DEAD_OR_OOM :: "encl_flag set" where
  "SGX_ENCL_DEAD_OR_OOM = {SGX_ENCL_DEAD, SGX_ENCL_OOM}"

subsection \<open>Lists and page descriptors\<close>

definition set_desc :: "page_ref \<Rightarrow> epc_flag set \<Rightarrow> sgx_state \<Rightarrow> sgx_state" where
  "set_desc p d s = s\<lparr>pages := (pages s)(p := (pages s p)\<lparr>desc := d\<rparr>)\<rparr>"

text \<open>\<^verbatim>\<open>list_del(&page->list)\<close> for a page that the caller did not take from a
  known list.  On a node that \<^verbatim>\<open>list_del\<close> has poisoned before, \<^verbatim>\<open>__list_del\<close>
  writes through \<^verbatim>\<open>LIST_POISON1\<close> and \<^verbatim>\<open>LIST_POISON2\<close>, which are no addresses
  (a kernel without \<^verbatim>\<open>CONFIG_DEBUG_LIST\<close>).  Otherwise the page leaves whatever list
  of the state it is linked on (none, if the node is linked to itself as
  \<^verbatim>\<open>list_del_init\<close> leaves it), and the node is poisoned.\<close>

definition list_del :: "page_ref \<Rightarrow> sgx_state \<Rightarrow> fault + sgx_state" where
  "list_del p s =
     (if list_poison (pages s p) then Inl LIST_POISON_DEREFERENCE
      else Inr (s\<lparr>
        sgx_epc_sections := (\<lambda>i. (sgx_epc_sections s i)\<lparr>
           page_list := removeAll p (page_list (sgx_epc_sections s i)),
           unsanitized_page_list := removeAll p (unsanitized_page_list (sgx_epc_sections s i))\<rparr>),
        lrus := (\<lambda>c. (lrus s c)\<lparr>
           reclaimable := removeAll p (reclaimable (lrus s c)),
           unreclaimable := removeAll p (unreclaimable (lrus s c))\<rparr>),
        pages := (pages s)(p := (pages s p)\<lparr>list_poison := True\<rparr>)\<rparr>))"

text \<open>\<^verbatim>\<open>list_add_tail(&page->list, head)\<close> stores both pointers of the node of the
  page: whatever the node held, it is linked afterwards.  This is its effect on the
  node; the list of the head is extended where it is called.\<close>

definition list_add_tail_node :: "page_ref \<Rightarrow> sgx_state \<Rightarrow> sgx_state" where
  "list_add_tail_node p s = s\<lparr>pages := (pages s)(p := (pages s p)\<lparr>list_poison := False\<rparr>)\<rparr>"

definition sgx_lru :: "sgx_state \<Rightarrow> page_ref \<Rightarrow> nat option" where
  "sgx_lru s p = epc_cg (pages s p)"

definition lru_add_tail_reclaimable :: "nat option \<Rightarrow> page_ref \<Rightarrow> sgx_state \<Rightarrow> sgx_state" where
  "lru_add_tail_reclaimable c p s =
     s\<lparr>lrus := (lrus s)(c := (lrus s c)\<lparr>reclaimable := reclaimable (lrus s c) @ [p]\<rparr>)\<rparr>"

definition lru_add_tail_unreclaimable :: "nat option \<Rightarrow> page_ref \<Rightarrow> sgx_state \<Rightarrow> sgx_state" where
  "lru_add_tail_unreclaimable c p s =
     s\<lparr>lrus := (lrus s)(c := (lrus s c)\<lparr>unreclaimable := unreclaimable (lrus s c) @ [p]\<rparr>)\<rparr>"

subsection \<open>sgx_record_epc_page, sgx_drop_epc_page\<close>

definition sgx_record_epc_page :: "page_ref \<Rightarrow> epc_flag set \<Rightarrow> sgx_state \<Rightarrow> sgx_state" where
  "sgx_record_epc_page p flags s =
     (let lru = sgx_lru s p;
          s1 = (if desc (pages s p) \<inter> SGX_EPC_PAGE_RECLAIM_FLAGS \<noteq> {}
                then emit (WARN ''sgx_record_epc_page'') s else s);
          s2 = set_desc p (desc (pages s1 p) \<union> flags) s1
      in if SGX_EPC_PAGE_RECLAIMABLE \<in> flags
         then lru_add_tail_reclaimable lru p (list_add_tail_node p s2)
         else lru_add_tail_unreclaimable lru p (list_add_tail_node p s2))"

definition sgx_drop_epc_page ::
  "page_ref \<Rightarrow> sgx_state \<Rightarrow> fault + (errno + unit) \<times> sgx_state" where
  "sgx_drop_epc_page p s =
     (if SGX_EPC_PAGE_RECLAIMABLE \<in> desc (pages s p) \<and>
         SGX_EPC_PAGE_RECLAIM_IN_PROGRESS \<in> desc (pages s p)
      then Inr (Inl EBUSY, s)
      else (case list_del p s of
              Inl f \<Rightarrow> Inl f
            | Inr s1 \<Rightarrow>
                Inr (Inr (), set_desc p (desc (pages s1 p) - SGX_EPC_PAGE_RECLAIM_FLAGS) s1)))"

text \<open>The lists of the state on which a page handle occurs.\<close>

definition on_some_list :: "sgx_state \<Rightarrow> page_ref \<Rightarrow> bool" where
  "on_some_list s p \<longleftrightarrow>
     (\<exists>i. p \<in> set (page_list (sgx_epc_sections s i)) \<or>
          p \<in> set (unsanitized_page_list (sgx_epc_sections s i))) \<or>
     (\<exists>c. p \<in> set (reclaimable (lrus s c)) \<or> p \<in> set (unreclaimable (lrus s c)))"

subsection \<open>Concrete states\<close>

text \<open>The state of the zero-initialised static data of main.c, before
  \<^verbatim>\<open>sgx_init\<close> has run.\<close>

definition zero_page :: sgx_epc_page where
  "zero_page = \<lparr>pa = 0, section_idx = 0, desc = {}, owner = 0, epc_cg = None,
     list_poison = False\<rparr>"

definition zero_encl :: sgx_encl where
  "zero_encl = \<lparr>encl_flags = {}, refcount = 0, secs_child_cnt = 0, secs_epc_page = None,
     va_pages = [], mm_list = [], base = 0, encl_size = 0, cpumask = {}\<rparr>"

definition zero_state :: sgx_state where
  "zero_state = \<lparr>
     pages = (\<lambda>_. zero_page),
     sgx_epc_sections = (\<lambda>_. \<lparr>page_list = [], unsanitized_page_list = [], free_cnt = 0\<rparr>),
     sgx_nr_epc_sections = 0,
     lrus = (\<lambda>_. \<lparr>reclaimable = [], unreclaimable = []\<rparr>),
     encls = (\<lambda>_. zero_encl),
     encl_pages = (\<lambda>_. \<lparr>encl = 0, reclaimed = False, va_offset = 0, va_page = None,
        epc_page = None, page_addr = 0\<rparr>),
     mms = (\<lambda>_. \<lparr>mm_users = 0, mmap = []\<rparr>),
     trace = []\<rparr>"

subsection \<open>The free path\<close>

text \<open>\<^verbatim>\<open>__sgx_free_epc_page\<close> (an Isabelle name cannot start with an underscore;
  \<open>uu_\<close> stands for the two underscores).  \<^verbatim>\<open>sgx_get_epc_section(page)\<close> is the
  section whose index is stored in the descriptor.\<close>

definition uu_sgx_free_epc_page :: "page_ref \<Rightarrow> sgx_state \<Rightarrow> sgx_state" where
  "uu_sgx_free_epc_page p s =
     (let i = section_idx (pages s p);
          s1 = (case epc_cg (pages s p) of
                  None \<Rightarrow> s
                | Some cg \<Rightarrow> (emit (CGROUP_UNCHARGE cg False) s)
                     \<lparr>pages := (pages s)(p := (pages s p)\<lparr>epc_cg := None\<rparr>)\<rparr>);
          s2 = list_add_tail_node p s1;
          sec = sgx_epc_sections s2 i
      in s2\<lparr>sgx_epc_sections := (sgx_epc_sections s2)
              (i := sec\<lparr>page_list := page_list sec @ [p], free_cnt := free_cnt sec + 1\<rparr>)\<rparr>)"

definition sgx_free_epc_page :: "ext \<Rightarrow> page_ref \<Rightarrow> sgx_state \<Rightarrow> sgx_state" where
  "sgx_free_epc_page x p s =
     (let flags = desc (pages s p) \<inter> SGX_EPC_PAGE_RECLAIM_FLAGS;
          s1 = (if flags \<noteq> {} then emit (WARN ''sgx: reclaim flags set during free'') s else s);
          r = call x (EREMOVE p) s1
      in if fst r \<noteq> 0 then emit (WARN ''EREMOVE returned'') (snd r)
         else uu_sgx_free_epc_page p (snd r))"

subsection \<open>The free-pool allocator\<close>

definition uu_sgx_alloc_epc_page_from_section ::
  "nat \<Rightarrow> sgx_state \<Rightarrow> page_ref option \<times> sgx_state" where
  "uu_sgx_alloc_epc_page_from_section i s =
     (case page_list (sgx_epc_sections s i) of
        [] \<Rightarrow> (None, s)
      | p # rest \<Rightarrow>
          (Some p, s\<lparr>sgx_epc_sections := (sgx_epc_sections s)
             (i := (sgx_epc_sections s i)\<lparr>page_list := rest,
                     free_cnt := free_cnt (sgx_epc_sections s i) - 1\<rparr>)\<rparr>))"

text \<open>The loop \<^verbatim>\<open>for (i = 0; i < sgx_nr_epc_sections; i++)\<close> of
  \<^verbatim>\<open>__sgx_alloc_epc_page\<close>, over the section indices still to be visited.\<close>

fun alloc_sections :: "nat list \<Rightarrow> sgx_state \<Rightarrow> (errno + page_ref) \<times> sgx_state" where
  "alloc_sections [] s = (Inl ENOMEM, s)"
| "alloc_sections (i # is) s =
     (case uu_sgx_alloc_epc_page_from_section i s of
        (Some p, s') \<Rightarrow> (Inr p, s')
      | (None, s') \<Rightarrow> alloc_sections is s')"

definition uu_sgx_alloc_epc_page :: "sgx_state \<Rightarrow> (errno + page_ref) \<times> sgx_state" where
  "uu_sgx_alloc_epc_page s = alloc_sections [0..<sgx_nr_epc_sections s] s"

subsection \<open>Section set-up and sanitization\<close>

text \<open>\<^verbatim>\<open>sgx_free_epc_section\<close>: both lists are emptied, the descriptors freed.\<close>

definition sgx_free_epc_section :: "nat \<Rightarrow> sgx_state \<Rightarrow> sgx_state" where
  "sgx_free_epc_section sec s =
     emit (MEMUNMAP sec) (s\<lparr>sgx_epc_sections := (sgx_epc_sections s)
        (sec := (sgx_epc_sections s sec)\<lparr>page_list := [], unsanitized_page_list := []\<rparr>)\<rparr>)"

text \<open>The loop of \<^verbatim>\<open>sgx_setup_epc_section\<close> over the page numbers \<open>i\<close>.  The value
  returned by \<^verbatim>\<open>kzalloc\<close> is the handle of the new descriptor, 0 is \<^verbatim>\<open>NULL\<close>.
  \<^verbatim>\<open>PAGE_SHIFT\<close> is 12 on x86.\<close>

fun setup_pages ::
  "ext \<Rightarrow> 64 word \<Rightarrow> nat \<Rightarrow> nat \<Rightarrow> nat list \<Rightarrow> sgx_state \<Rightarrow> bool \<times> sgx_state" where
  "setup_pages x addr index sec [] s = (True, s)"
| "setup_pages x addr index sec (i # is) s =
     (let r = call x KZALLOC s; s1 = snd r
      in if fst r = 0 then (False, s1)
         else (let p = nat (fst r);
                   s2 = s1\<lparr>pages := (pages s1)(p := \<lparr>pa = addr + push_bit 12 (of_nat i),
                              section_idx = index, desc = {}, owner = 0, epc_cg = None,
                              list_poison = False\<rparr>)\<rparr>;
                   s3 = s2\<lparr>sgx_epc_sections := (sgx_epc_sections s2)
                          (sec := (sgx_epc_sections s2 sec)\<lparr>unsanitized_page_list :=
                               unsanitized_page_list (sgx_epc_sections s2 sec) @ [p]\<rparr>)\<rparr>
               in setup_pages x addr index sec is s3))"

definition sgx_setup_epc_section ::
  "ext \<Rightarrow> 64 word \<Rightarrow> 64 word \<Rightarrow> nat \<Rightarrow> nat \<Rightarrow> sgx_state \<Rightarrow> bool \<times> sgx_state" where
  "sgx_setup_epc_section x addr sz index sec s =
     (let nr_pages = drop_bit 12 sz;
          r = call x (MEMREMAP addr sz) s
      in if fst r = 0 then (False, snd r)
         else (let s1 = (snd r)\<lparr>sgx_epc_sections := (sgx_epc_sections (snd r))
                          (sec := (sgx_epc_sections (snd r) sec)
                             \<lparr>page_list := [], unsanitized_page_list := []\<rparr>)\<rparr>;
                   l = setup_pages x addr index sec [0..<unat nr_pages] s1
               in if fst l
                  then (True, (snd l)\<lparr>sgx_epc_sections := (sgx_epc_sections (snd l))
                          (sec := (sgx_epc_sections (snd l) sec)\<lparr>free_cnt := nr_pages\<rparr>)\<rparr>)
                  else (False, sgx_free_epc_section sec (snd l))))"

text \<open>\<^verbatim>\<open>sgx_sanitize_section\<close>.  The list \<open>secs_list\<close> is the local
  \<^verbatim>\<open>LIST_HEAD(secs_list)\<close>; it is returned with the state to show where the pages
  went, the C function returns nothing and its caller never sees the list.\<close>

function sgx_sanitize_section ::
  "ext \<Rightarrow> nat \<Rightarrow> page_ref list \<Rightarrow> sgx_state \<Rightarrow> page_ref list \<times> sgx_state" where
  "sgx_sanitize_section x sec secs_list s =
     (case unsanitized_page_list (sgx_epc_sections s sec) of
        [] \<Rightarrow> (secs_list, s)
      | p # rest \<Rightarrow>
          if fst (call x KTHREAD_SHOULD_STOP s) \<noteq> 0
          then (secs_list, snd (call x KTHREAD_SHOULD_STOP s))
          else (let s1 = snd (call x KTHREAD_SHOULD_STOP s);
                    r = call x (EREMOVE p) s1;
                    s2 = snd r;
                    sc = sgx_epc_sections s2 sec
                in if fst r = 0
                   then sgx_sanitize_section x sec secs_list
                          (emit COND_RESCHED (s2\<lparr>sgx_epc_sections := (sgx_epc_sections s2)
                             (sec := sc\<lparr>unsanitized_page_list := rest,
                                        page_list := p # page_list sc\<rparr>)\<rparr>))
                   else sgx_sanitize_section x sec (secs_list @ [p])
                          (emit COND_RESCHED (s2\<lparr>sgx_epc_sections := (sgx_epc_sections s2)
                             (sec := sc\<lparr>unsanitized_page_list := rest\<rparr>)\<rparr>))))"
  by pat_completeness auto
termination
  by (relation "measure (\<lambda>(x, sec, secs_list, s).
        length (unsanitized_page_list (sgx_epc_sections s sec)))")
     (auto simp: call_def emit_def)

declare sgx_sanitize_section.simps [simp del]

text \<open>The two sanitization rounds at the start of \<^verbatim>\<open>ksgxswapd\<close>, each a loop over
  the section indices.\<close>

fun sanitize_round1 :: "ext \<Rightarrow> nat list \<Rightarrow> sgx_state \<Rightarrow> sgx_state" where
  "sanitize_round1 x [] s = s"
| "sanitize_round1 x (i # is) s = sanitize_round1 x is (snd (sgx_sanitize_section x i [] s))"

fun sanitize_round2 :: "ext \<Rightarrow> nat list \<Rightarrow> sgx_state \<Rightarrow> sgx_state" where
  "sanitize_round2 x [] s = s"
| "sanitize_round2 x (i # is) s =
     (let s1 = snd (sgx_sanitize_section x i [] s);
          s2 = (if unsanitized_page_list (sgx_epc_sections s1 i) \<noteq> []
                then emit (WARN ''EPC section has unsanitized pages'') s1 else s1)
      in sanitize_round2 x is s2)"

definition ksgxswapd_sanitize :: "ext \<Rightarrow> sgx_state \<Rightarrow> sgx_state" where
  "ksgxswapd_sanitize x s =
     sanitize_round2 x [0..<sgx_nr_epc_sections s]
       (sanitize_round1 x [0..<sgx_nr_epc_sections s] s)"

subsection \<open>Scenario S1 of the specification: boot sanitization\<close>

text \<open>Two sections of 4 and 2 pages, pages 1 to 4 and 5, 6.  \<^verbatim>\<open>EREMOVE\<close> succeeds
  on pages 1 to 4; on pages 5 and 6 it fails the first time it is executed and
  succeeds every time after that.  Every other call returns 0.\<close>

definition s1_ext :: ext where
  "s1_ext = \<lparr>
     ret = (\<lambda>ev k. case ev of
              EREMOVE p \<Rightarrow> (if (p = 5 \<or> p = 6) \<and> k = 0 then 1 else 0)
            | _ \<Rightarrow> 0),
     mm_cpumask = (\<lambda>m tr. {}),
     virt_epc_get_ref = (\<lambda>_. False),
     sgx_vm_ops = 1,
     encls_failed = (\<lambda>r. r \<noteq> 0),
     SGX_ENCL_PAGE_INDEX = (\<lambda>ep. ep),
     SGX_NR_LOW_PAGES = 32,
     SGX_NR_HIGH_PAGES = 64\<rparr>"

definition s1_state :: sgx_state where
  "s1_state = zero_state\<lparr>
     sgx_epc_sections := (\<lambda>i.
        if i = 0 then \<lparr>page_list = [], unsanitized_page_list = [1, 2, 3, 4], free_cnt = 4\<rparr>
        else if i = 1 then \<lparr>page_list = [], unsanitized_page_list = [5, 6], free_cnt = 2\<rparr>
        else \<lparr>page_list = [], unsanitized_page_list = [], free_cnt = 0\<rparr>),
     sgx_nr_epc_sections := 2\<rparr>"

subsection \<open>Reference counts\<close>

text \<open>\<^verbatim>\<open>kref_get_unless_zero(&encl->refcount)\<close> and
  \<^verbatim>\<open>kref_put(&encl->refcount, sgx_encl_release)\<close>.  The release function belongs to
  the enclave module; its call is recorded in the trace.\<close>

definition kref_get_unless_zero :: "encl_ref \<Rightarrow> sgx_state \<Rightarrow> bool \<times> sgx_state" where
  "kref_get_unless_zero e s =
     (if refcount (encls s e) = 0 then (False, s)
      else (True, s\<lparr>encls := (encls s)(e := (encls s e)\<lparr>refcount := refcount (encls s e) + 1\<rparr>)\<rparr>))"

definition kref_put :: "encl_ref \<Rightarrow> sgx_state \<Rightarrow> sgx_state" where
  "kref_put e s =
     (if refcount (encls s e) = 0 then emit (WARN ''refcount_t: underflow'') s
      else (let s1 = s\<lparr>encls := (encls s)(e := (encls s e)\<lparr>refcount := refcount (encls s e) - 1\<rparr>)\<rparr>
            in if refcount (encls s1 e) = 0 then emit (ENCL_RELEASE e) s1 else s1))"

text \<open>The enclave of the enclave page that owns an EPC page:
  \<^verbatim>\<open>((struct sgx_encl_page *)epc_page->owner)->encl\<close>.\<close>

definition encl_of :: "sgx_state \<Rightarrow> page_ref \<Rightarrow> encl_ref" where
  "encl_of s p = encl (encl_pages s (owner (pages s p)))"

subsection \<open>sgx_isolate_epc_pages\<close>

definition set_reclaimable :: "nat option \<Rightarrow> page_ref list \<Rightarrow> sgx_state \<Rightarrow> sgx_state" where
  "set_reclaimable lru l s = s\<lparr>lrus := (lrus s)(lru := (lrus s lru)\<lparr>reclaimable := l\<rparr>)\<rparr>"

text \<open>The result is the final value of \<^verbatim>\<open>*nr_to_scan\<close>, the list \<open>dst\<close> and the
  state.\<close>

function sgx_isolate_epc_pages ::
  "nat option \<Rightarrow> int \<Rightarrow> page_ref list \<Rightarrow> sgx_state \<Rightarrow> int \<times> page_ref list \<times> sgx_state" where
  "sgx_isolate_epc_pages lru nr_to_scan dst s =
     (if nr_to_scan > 0
      then (case reclaimable (lrus s lru) of
              [] \<Rightarrow> (nr_to_scan, dst, s)
            | p # rest \<Rightarrow>
                if SGX_EPC_PAGE_ENCLAVE \<notin> desc (pages s p)
                then sgx_isolate_epc_pages lru (nr_to_scan - 1) dst
                       (emit (WARN ''sgx_isolate_epc_pages'') s)
                else if fst (kref_get_unless_zero (encl_of s p) s)
                then sgx_isolate_epc_pages lru (nr_to_scan - 1) (dst @ [p])
                       (set_reclaimable lru rest
                          (set_desc p (insert SGX_EPC_PAGE_RECLAIM_IN_PROGRESS (desc (pages s p)))
                             (snd (kref_get_unless_zero (encl_of s p) s))))
                else sgx_isolate_epc_pages lru (nr_to_scan - 1) dst
                       (set_reclaimable lru rest
                          (set_desc p (desc (pages s p) - {SGX_EPC_PAGE_RECLAIMABLE})
                             (snd (kref_get_unless_zero (encl_of s p) s)))))
      else (nr_to_scan, dst, s))"
  by pat_completeness auto
termination
  by (relation "measure (\<lambda>(lru, nr_to_scan, dst, s). nat nr_to_scan)") auto

declare sgx_isolate_epc_pages.simps [simp del]

text \<open>The state after one iteration of the loop that took the head \<open>p\<close> of the
  reclaimable list, and after one that dropped it.\<close>

definition isolate_take :: "nat option \<Rightarrow> page_ref \<Rightarrow> page_ref list \<Rightarrow> sgx_state \<Rightarrow> sgx_state" where
  "isolate_take lru p rest s =
     set_reclaimable lru rest
       (set_desc p (insert SGX_EPC_PAGE_RECLAIM_IN_PROGRESS (desc (pages s p)))
          (snd (kref_get_unless_zero (encl_of s p) s)))"

definition isolate_drop :: "nat option \<Rightarrow> page_ref \<Rightarrow> page_ref list \<Rightarrow> sgx_state \<Rightarrow> sgx_state" where
  "isolate_drop lru p rest s =
     set_reclaimable lru rest
       (set_desc p (desc (pages s p) - {SGX_EPC_PAGE_RECLAIMABLE})
          (snd (kref_get_unless_zero (encl_of s p) s)))"

text \<open>Whether \<^verbatim>\<open>kref_get_unless_zero\<close> on the enclave of a page succeeds.\<close>

definition can_get_ref :: "sgx_state \<Rightarrow> page_ref \<Rightarrow> bool" where
  "can_get_ref s p \<longleftrightarrow> refcount (encls s (encl_of s p)) \<noteq> 0"

subsection \<open>A reclaimable list with a page of a vanishing enclave\<close>

text \<open>Pages 1, 2 and 3 are on the global reclaimable list, page \<open>p\<close> owned by enclave
  page \<open>p\<close>.  Enclave page 1 belongs to enclave 1, whose reference count has already
  dropped to zero; enclave pages 2 and 3 belong to enclave 2, which is alive.\<close>

definition iso_state :: sgx_state where
  "iso_state = zero_state\<lparr>
     pages := (\<lambda>p. if p = 1 \<or> p = 2 \<or> p = 3
        then zero_page\<lparr>desc := {SGX_EPC_PAGE_ENCLAVE, SGX_EPC_PAGE_RECLAIMABLE}, owner := p\<rparr>
        else zero_page),
     encl_pages := (\<lambda>e. \<lparr>encl = (if e = 1 then 1 else 2), reclaimed = False,
        va_offset = 0, va_page = None, epc_page = Some e, page_addr = 0\<rparr>),
     encls := (\<lambda>e. if e = 2 then zero_encl\<lparr>refcount := 1\<rparr> else zero_encl),
     lrus := (\<lambda>c. if c = None then \<lparr>reclaimable = [1, 2, 3], unreclaimable = []\<rparr>
        else \<lparr>reclaimable = [], unreclaimable = []\<rparr>)\<rparr>"

subsection \<open>OOM victim selection\<close>

definition sgx_oom_get_ref :: "ext \<Rightarrow> page_ref \<Rightarrow> sgx_state \<Rightarrow> bool \<times> sgx_state" where
  "sgx_oom_get_ref x p s =
     (if SGX_EPC_PAGE_ENCLAVE \<in> desc (pages s p)
      then kref_get_unless_zero (encl_of s p) s
      else if SGX_EPC_PAGE_VERSION_ARRAY \<in> desc (pages s p)
      then kref_get_unless_zero (owner (pages s p)) s
      else (virt_epc_get_ref x p, s))"

definition set_unreclaimable :: "nat option \<Rightarrow> page_ref list \<Rightarrow> sgx_state \<Rightarrow> sgx_state" where
  "set_unreclaimable lru l s = s\<lparr>lrus := (lrus s)(lru := (lrus s lru)\<lparr>unreclaimable := l\<rparr>)\<rparr>"

text \<open>The loop \<^verbatim>\<open>list_for_each_entry_safe\<close> of \<^verbatim>\<open>sgx_oom_get_victim\<close> over the
  entries of the unreclaimable list: the entry at hand is the head of the list, since
  every entry before it has been unlinked.\<close>

fun oom_scan :: "ext \<Rightarrow> nat option \<Rightarrow> page_ref list \<Rightarrow> sgx_state \<Rightarrow> page_ref option \<times> sgx_state" where
  "oom_scan x lru [] s = (None, s)"
| "oom_scan x lru (p # rest) s =
     (let s1 = set_unreclaimable lru rest s;
          r = sgx_oom_get_ref x p s1
      in if fst r then (Some p, snd r) else oom_scan x lru rest (snd r))"

definition sgx_oom_get_victim :: "ext \<Rightarrow> nat option \<Rightarrow> sgx_state \<Rightarrow> page_ref option \<times> sgx_state" where
  "sgx_oom_get_victim x lru s =
     (if unreclaimable (lrus s lru) = [] then (None, s)
      else oom_scan x lru (unreclaimable (lrus s lru)) s)"

subsection \<open>Killing an enclave\<close>


text \<open>\<^verbatim>\<open>find_vma(mm, addr)\<close> of the kernel's memory management: the first area of
  the address-ordered list \<open>mmap\<close> with \<open>addr < vm_end\<close>.  An area is given together
  with the areas after it, so that \<^verbatim>\<open>vm_next\<close> is the tail of the list and the empty
  list is \<^verbatim>\<open>NULL\<close>.\<close>

fun find_vma :: "vm_area_struct list \<Rightarrow> 64 word \<Rightarrow> vm_area_struct list" where
  "find_vma [] addr = []"
| "find_vma (v # vs) addr = (if addr < vm_end v then v # vs else find_vma vs addr)"

text \<open>The inner \<^verbatim>\<open>do ... while\<close> loop of \<^verbatim>\<open>sgx_epc_oom_zap\<close>, entered with
  \<open>tmp = t # ts\<close>; it yields the last \<open>vm_end\<close> and the value of \<open>tmp\<close> at its exit.\<close>

fun zap_do_while ::
  "vm_area_struct \<Rightarrow> nat \<Rightarrow> nat \<Rightarrow> 64 word \<Rightarrow> vm_area_struct \<Rightarrow> vm_area_struct list \<Rightarrow>
   64 word \<times> vm_area_struct list" where
  "zap_do_while vma own ops lim t [] = (vm_end t, [])"
| "zap_do_while vma own ops lim t (t' # ts) =
     (if vm_ops t' = ops \<and> vm_private_data vma = own \<and> vm_start t' < lim
      then zap_do_while vma own ops lim t' ts
      else (vm_end t, t' # ts))"

lemma zap_do_while_length:
  "length (snd (zap_do_while vma own ops lim t ts)) \<le> length ts"
  by (induction ts arbitrary: t) (auto intro: le_SucI)

text \<open>The outer \<^verbatim>\<open>for (tmp = vma; tmp->vm_start < lim; tmp = tmp->vm_next)\<close> loop.
  Its condition reads \<open>tmp->vm_start\<close>: with \<open>tmp = NULL\<close> the kernel faults.\<close>

function zap_for ::
  "vm_area_struct \<Rightarrow> nat \<Rightarrow> mm_ref \<Rightarrow> nat \<Rightarrow> 64 word \<Rightarrow> vm_area_struct list \<Rightarrow> sgx_state \<Rightarrow>
   fault + sgx_state" where
  "zap_for vma own mm ops lim [] s = Inl NULL_POINTER_DEREFERENCE"
| "zap_for vma own mm ops lim (t # ts) s =
     (if vm_start t < lim
      then (let r = zap_do_while vma own ops lim t ts;
                s1 = emit (ZAP_PAGE_RANGE mm (vm_start vma) (fst r - vm_start vma)) s
            in case snd r of
                 [] \<Rightarrow> Inr s1
               | t' # ts' \<Rightarrow> zap_for vma own mm ops lim ts' s1)
      else Inr s)"
  by pat_completeness auto
termination
proof (relation "measure (\<lambda>(vma, own, mm, ops, lim, tmp, s). length tmp)", goal_cases)
  case 1
  show ?case by simp
next
  case (2 vma own mm ops lim t ts s r s1 t' ts')
  have "length (snd (zap_do_while vma own ops lim t ts)) \<le> length ts"
    by (rule zap_do_while_length)
  with 2 show ?case by simp
qed

definition sgx_epc_oom_zap ::
  "nat \<Rightarrow> mm_ref \<Rightarrow> 64 word \<Rightarrow> 64 word \<Rightarrow> nat \<Rightarrow> sgx_state \<Rightarrow> fault + sgx_state" where
  "sgx_epc_oom_zap own mm start lim ops s =
     (case find_vma (mmap (mms s mm)) start of
        [] \<Rightarrow> Inr s
      | vma # vs \<Rightarrow>
          if vm_ops vma \<noteq> ops \<or> vm_private_data vma \<noteq> own \<or> vm_start vma \<ge> lim
          then Inr s
          else zap_for vma own mm ops lim (vma # vs) s)"

definition mmget_not_zero :: "mm_ref \<Rightarrow> sgx_state \<Rightarrow> bool \<times> sgx_state" where
  "mmget_not_zero m s =
     (if mm_users (mms s m) = 0 then (False, s)
      else (True, s\<lparr>mms := (mms s)(m := (mms s m)\<lparr>mm_users := mm_users (mms s m) + 1\<rparr>)\<rparr>))"

definition mmput_async :: "mm_ref \<Rightarrow> sgx_state \<Rightarrow> sgx_state" where
  "mmput_async m s =
     (let s1 = s\<lparr>mms := (mms s)(m := (mms s m)\<lparr>mm_users := mm_users (mms s m) - 1\<rparr>)\<rparr>
      in if mm_users (mms s1 m) = 0 then emit (MMPUT m) s1 else s1)"

text \<open>The walk \<^verbatim>\<open>list_for_each_entry_rcu(encl_mm, &encl->mm_list, list)\<close> of
  \<^verbatim>\<open>sgx_oom_encl\<close>.  In the sequential model \<open>mm_list_version\<close> cannot change during
  the walk, so the enclosing \<^verbatim>\<open>do ... while\<close> runs its body once.\<close>

fun oom_zap_mms :: "ext \<Rightarrow> encl_ref \<Rightarrow> mm_ref list \<Rightarrow> sgx_state \<Rightarrow> fault + sgx_state" where
  "oom_zap_mms x e [] s = Inr s"
| "oom_zap_mms x e (m # ms) s =
     (let g = mmget_not_zero m s
      in if \<not> fst g then oom_zap_mms x e ms (snd g)
         else (case sgx_epc_oom_zap e m (base (encls (snd g) e))
                      (base (encls (snd g) e) + encl_size (encls (snd g) e)) (sgx_vm_ops x) (snd g) of
                 Inl f \<Rightarrow> Inl f
               | Inr s1 \<Rightarrow> oom_zap_mms x e ms (mmput_async m s1)))"

definition sgx_oom_encl :: "ext \<Rightarrow> encl_ref \<Rightarrow> sgx_state \<Rightarrow> fault + sgx_state" where
  "sgx_oom_encl x e s =
     (let fl = encl_flags (encls s e);
          s1 = s\<lparr>encls := (encls s)(e := (encls s e)\<lparr>encl_flags := insert SGX_ENCL_OOM fl\<rparr>)\<rparr>
      in if fl \<inter> SGX_ENCL_DEAD_OR_OOM \<noteq> {} \<or> SGX_ENCL_CREATED \<notin> fl
         then Inr (kref_put e s1)
         else (case oom_zap_mms x e (mm_list (encls s1 e)) s1 of
                 Inl f \<Rightarrow> Inl f
               | Inr s2 \<Rightarrow> Inr (kref_put e (emit (ENCL_DESTROY e) s2))))"

definition sgx_oom_encl_page :: "ext \<Rightarrow> nat \<Rightarrow> sgx_state \<Rightarrow> fault + sgx_state" where
  "sgx_oom_encl_page x ep s = sgx_oom_encl x (encl (encl_pages s ep)) s"

definition sgx_epc_oom :: "ext \<Rightarrow> nat option \<Rightarrow> sgx_state \<Rightarrow> fault + (bool \<times> sgx_state)" where
  "sgx_epc_oom x lru s =
     (case sgx_oom_get_victim x lru s of
        (None, s1) \<Rightarrow> Inr (False, s1)
      | (Some victim, s1) \<Rightarrow>
          (case (if SGX_EPC_PAGE_ENCLAVE \<in> desc (pages s1 victim)
                 then sgx_oom_encl_page x (owner (pages s1 victim)) s1
                 else if SGX_EPC_PAGE_VERSION_ARRAY \<in> desc (pages s1 victim)
                 then sgx_oom_encl x (owner (pages s1 victim)) s1
                 else Inr (emit (VIRT_EPC_OOM victim) s1)) of
             Inl f \<Rightarrow> Inl f
           | Inr s2 \<Rightarrow> Inr (True, s2)))"

text \<open>Whether \<^verbatim>\<open>sgx_oom_get_ref\<close> would succeed on a page in a state.\<close>

definition oom_can_get_ref :: "ext \<Rightarrow> sgx_state \<Rightarrow> page_ref \<Rightarrow> bool" where
  "oom_can_get_ref x s p \<longleftrightarrow>
     (if SGX_EPC_PAGE_ENCLAVE \<in> desc (pages s p) then refcount (encls s (encl_of s p)) \<noteq> 0
      else if SGX_EPC_PAGE_VERSION_ARRAY \<in> desc (pages s p)
      then refcount (encls s (owner (pages s p))) \<noteq> 0
      else virt_epc_get_ref x p)"

subsection \<open>Scenario S5 of the specification: OOM\<close>

text \<open>The global unreclaimable list holds the version-array page 7 of enclave 3, whose
  reference count is 1.  The enclave is created and initialised, spans
  \<open>[0x1000, 0x2000)\<close> and is mapped by the address space 1, whose list of areas is the
  parameter.  \<open>encl_vma\<close> is the area that maps the enclave (its operations are
  \<^verbatim>\<open>sgx_vm_ops\<close>, handle 1 in \<open>s1_ext\<close>); \<open>other_vma a\<close> is an unrelated area of
  one page at address \<open>a\<close>.\<close>

definition oom_state :: "vm_area_struct list \<Rightarrow> sgx_state" where
  "oom_state vmas = zero_state\<lparr>
     pages := (\<lambda>p. if p = 7 then zero_page\<lparr>desc := {SGX_EPC_PAGE_VERSION_ARRAY}, owner := 3\<rparr>
                   else zero_page),
     encls := (\<lambda>e. if e = 3
        then zero_encl\<lparr>encl_flags := {SGX_ENCL_CREATED, SGX_ENCL_INITIALIZED}, refcount := 1,
               mm_list := [1], base := 0x1000, encl_size := 0x1000\<rparr>
        else zero_encl),
     mms := (\<lambda>m. if m = 1 then \<lparr>mm_users = 1, mmap = vmas\<rparr>
                 else \<lparr>mm_users = 0, mmap = []\<rparr>),
     lrus := (\<lambda>c. if c = None then \<lparr>reclaimable = [], unreclaimable = [7]\<rparr>
        else \<lparr>reclaimable = [], unreclaimable = []\<rparr>)\<rparr>"

definition encl_vma :: vm_area_struct where
  "encl_vma = \<lparr>vm_start = 0x1000, vm_end = 0x2000, vm_ops = 1, vm_private_data = 3\<rparr>"

definition other_vma :: "64 word \<Rightarrow> vm_area_struct" where
  "other_vma a = \<lparr>vm_start = a, vm_end = a + 0x1000, vm_ops = 0, vm_private_data = 0\<rparr>"

subsection \<open>Writing a page back: sgx_encl_ewb\<close>

text \<open>Modelled from the spec: the version-array allocator \<^verbatim>\<open>alloc_va_slot\<close>,
  \<^verbatim>\<open>va_page_full\<close>, \<^verbatim>\<open>free_va_slot\<close> belongs to the enclave module, which is not
  part of the sources at hand.  A version page has a row of slots, each free or in
  use; allocation takes the first free slot and yields its index (the number of
  slots if none is free), a page is full when no slot is free, and freeing releases
  the slot of the given index.\<close>

definition sgx_alloc_va_slot :: "sgx_va_page \<Rightarrow> nat \<times> sgx_va_page" where
  "sgx_alloc_va_slot vp =
     (let i = length (takeWhile (\<lambda>b. b) (slots vp))
      in (i, if i < length (slots vp) then vp\<lparr>slots := (slots vp)[i := True]\<rparr> else vp))"

definition sgx_va_page_full :: "sgx_va_page \<Rightarrow> bool" where
  "sgx_va_page_full vp \<longleftrightarrow> length (takeWhile (\<lambda>b. b) (slots vp)) = length (slots vp)"

definition sgx_free_va_slot :: "sgx_va_page \<Rightarrow> nat \<Rightarrow> sgx_va_page" where
  "sgx_free_va_slot vp off = vp\<lparr>slots := (slots vp)[off := False]\<rparr>"

text \<open>The ENCLS error code \<^verbatim>\<open>SGX_NOT_TRACKED\<close> of sgx_arch.h.\<close>

definition SGX_NOT_TRACKED :: int where
  "SGX_NOT_TRACKED = 11"

definition set_va_pages :: "encl_ref \<Rightarrow> sgx_va_page list \<Rightarrow> sgx_state \<Rightarrow> sgx_state" where
  "set_va_pages e l s = s\<lparr>encls := (encls s)(e := (encls s e)\<lparr>va_pages := l\<rparr>)\<rparr>"

text \<open>The walk of \<^verbatim>\<open>sgx_encl_ewb_cpumask\<close> over the address spaces of the enclave.\<close>

fun ewb_cpumask_mms :: "ext \<Rightarrow> encl_ref \<Rightarrow> mm_ref list \<Rightarrow> sgx_state \<Rightarrow> sgx_state" where
  "ewb_cpumask_mms x e [] s = s"
| "ewb_cpumask_mms x e (m # ms) s =
     (let g = mmget_not_zero m s
      in if \<not> fst g then ewb_cpumask_mms x e ms (snd g)
         else (let s1 = snd g;
                   s2 = s1\<lparr>encls := (encls s1)(e := (encls s1 e)
                          \<lparr>cpumask := cpumask (encls s1 e) \<union> mm_cpumask x m (trace s1)\<rparr>)\<rparr>
               in ewb_cpumask_mms x e ms (mmput_async m s2)))"

definition sgx_encl_ewb_cpumask :: "ext \<Rightarrow> encl_ref \<Rightarrow> sgx_state \<Rightarrow> nat set \<times> sgx_state" where
  "sgx_encl_ewb_cpumask x e s =
     (let s1 = s\<lparr>encls := (encls s)(e := (encls s e)\<lparr>cpumask := {}\<rparr>)\<rparr>;
          s2 = ewb_cpumask_mms x e (mm_list (encls s1 e)) s1
      in (cpumask (encls s2 e), s2))"

text \<open>\<^verbatim>\<open>__sgx_encl_ewb\<close>: the page, the version page and the slot go to \<^verbatim>\<open>EWB\<close>.\<close>

definition uu_sgx_encl_ewb :: "ext \<Rightarrow> page_ref \<Rightarrow> page_ref \<Rightarrow> nat \<Rightarrow> sgx_state \<Rightarrow> int \<times> sgx_state" where
  "uu_sgx_encl_ewb x p va off s = call x (EWB p va off) s"

text \<open>The end of \<^verbatim>\<open>sgx_encl_ewb\<close>, from \<^verbatim>\<open>if (ret)\<close> on.  \<open>vp\<close> is the version page
  after the allocation of slot \<open>off\<close>, \<open>vps\<close> are the other version pages of the
  enclave, and \<open>full\<close> tells that \<open>vp\<close> was moved to the tail of the list.\<close>

definition ewb_finish ::
  "ext \<Rightarrow> nat \<Rightarrow> encl_ref \<Rightarrow> bool \<Rightarrow> sgx_va_page \<Rightarrow> sgx_va_page list \<Rightarrow> nat \<Rightarrow> int \<Rightarrow>
   sgx_state \<Rightarrow> sgx_state" where
  "ewb_finish x ep e full vp vps off r s =
     (if r \<noteq> 0
      then (let s1 = (if encls_failed x r then emit (ENCLS_WARN ''EWB'') s else s);
                vp1 = sgx_free_va_slot vp off
            in set_va_pages e (if full then vps @ [vp1] else vp1 # vps) s1)
      else s\<lparr>encl_pages := (encl_pages s)(ep := (encl_pages s ep)
               \<lparr>va_offset := va_offset (encl_pages s ep) OR off,
                va_page := Some (va_epc_page vp)\<rparr>)\<rparr>)"

definition sgx_encl_ewb :: "ext \<Rightarrow> page_ref \<Rightarrow> sgx_state \<Rightarrow> fault + sgx_state" where
  "sgx_encl_ewb x p s =
     (let ep = owner (pages s p);
          e = encl (encl_pages s ep);
          s1 = s\<lparr>encl_pages := (encl_pages s)(ep := (encl_pages s ep)\<lparr>reclaimed := False\<rparr>)\<rparr>
      in case va_pages (encls s1 e) of
           [] \<Rightarrow> Inl EMPTY_LIST_ENTRY
         | v # vps \<Rightarrow>
             (let off = fst (sgx_alloc_va_slot v);
                  vp = snd (sgx_alloc_va_slot v);
                  full = sgx_va_page_full vp;
                  s2 = set_va_pages e (if full then vps @ [vp] else vp # vps) s1;
                  r1 = uu_sgx_encl_ewb x p (va_epc_page vp) off s2
              in if fst r1 = SGX_NOT_TRACKED
                 then (case secs_epc_page (encls (snd r1) e) of
                         None \<Rightarrow> Inl NULL_POINTER_DEREFERENCE
                       | Some secs \<Rightarrow>
                           (let t = call x (ETRACK secs) (snd r1);
                                s3 = (if fst t \<noteq> 0 \<and> encls_failed x (fst t)
                                      then emit (ENCLS_WARN ''ETRACK'') (snd t) else snd t);
                                r2 = uu_sgx_encl_ewb x p (va_epc_page vp) off s3
                            in if fst r2 = SGX_NOT_TRACKED
                               then (let m = sgx_encl_ewb_cpumask x e (snd r2);
                                         s4 = emit (ON_EACH_CPU_MASK (fst m)) (snd m);
                                         r3 = uu_sgx_encl_ewb x p (va_epc_page vp) off s4
                                     in Inr (ewb_finish x ep e full vp vps off (fst r3) (snd r3)))
                               else Inr (ewb_finish x ep e full vp vps off (fst r2) (snd r2))))
                 else Inr (ewb_finish x ep e full vp vps off (fst r1) (snd r1))))"

text \<open>The union of the CPU sets, as a read gives them when the calls \<open>tr\<close> have been
  made, of the address spaces of a list that are still in use (\<^verbatim>\<open>mmget_not_zero\<close>
  succeeds on them).\<close>

fun live_cpus :: "ext \<Rightarrow> event list \<Rightarrow> sgx_state \<Rightarrow> mm_ref list \<Rightarrow> nat set" where
  "live_cpus x tr s [] = {}"
| "live_cpus x tr s (m # ms) =
     (if mm_users (mms s m) \<noteq> 0 then mm_cpumask x m tr \<union> live_cpus x tr s ms
      else live_cpus x tr s ms)"

definition set_cpumask :: "encl_ref \<Rightarrow> nat set \<Rightarrow> sgx_state \<Rightarrow> sgx_state" where
  "set_cpumask e c s = s\<lparr>encls := (encls s)(e := (encls s e)\<lparr>cpumask := c\<rparr>)\<rparr>"

text \<open>The warnings that \<^verbatim>\<open>sgx_encl_ewb\<close> logs for a return value of \<^verbatim>\<open>EWB\<close> and
  of \<^verbatim>\<open>ETRACK\<close>.\<close>

definition ewb_warn :: "ext \<Rightarrow> int \<Rightarrow> event list" where
  "ewb_warn x r = (if r \<noteq> 0 \<and> encls_failed x r then [ENCLS_WARN ''EWB''] else [])"

definition etrack_warn :: "ext \<Rightarrow> int \<Rightarrow> event list" where
  "etrack_warn x r = (if r \<noteq> 0 \<and> encls_failed x r then [ENCLS_WARN ''ETRACK''] else [])"

fun is_etrack :: "event \<Rightarrow> bool" where
  "is_etrack (ETRACK p) = True"
| "is_etrack ev = False"

fun is_ipi :: "event \<Rightarrow> bool" where
  "is_ipi (ON_EACH_CPU_MASK c) = True"
| "is_ipi ev = False"

subsection \<open>Scenario S3 of the specification: NOT_TRACKED escalation\<close>

text \<open>EPC page 2 belongs to enclave page 2 of enclave 1.  The enclave has the SECS page
  8, one version page (EPC page 9) with two free slots, and is mapped by the address
  spaces 4 (CPUs 0 and 2, and also CPU 5 once \<^verbatim>\<open>ETRACK\<close> has been executed), 5 (CPU
  3) and 6 (CPU 7, no users left).  \<^verbatim>\<open>EWB\<close> answers \<^verbatim>\<open>SGX_NOT_TRACKED\<close> the first
  two times it is executed and 0 after that.\<close>

definition s3_ext :: ext where
  "s3_ext = \<lparr>
     ret = (\<lambda>ev k. case ev of
              EWB p va off \<Rightarrow> (if k < 2 then 11 else 0)
            | _ \<Rightarrow> 0),
     mm_cpumask = (\<lambda>m tr. if m = 4 then (if ETRACK 8 \<in> set tr then {0, 2, 5} else {0, 2})
                          else if m = 5 then {3} else {7}),
     virt_epc_get_ref = (\<lambda>_. False),
     sgx_vm_ops = 1,
     encls_failed = (\<lambda>r. r \<noteq> 0),
     SGX_ENCL_PAGE_INDEX = (\<lambda>ep. ep),
     SGX_NR_LOW_PAGES = 32,
     SGX_NR_HIGH_PAGES = 64\<rparr>"

definition s3_state :: sgx_state where
  "s3_state = zero_state\<lparr>
     pages := (\<lambda>p. if p = 2
        then zero_page\<lparr>desc := {SGX_EPC_PAGE_ENCLAVE, SGX_EPC_PAGE_RECLAIMABLE,
                                 SGX_EPC_PAGE_RECLAIM_IN_PROGRESS}, owner := 2\<rparr>
        else zero_page),
     encl_pages := (\<lambda>_. \<lparr>encl = 1, reclaimed = True, va_offset = 0, va_page = None,
        epc_page = Some 2, page_addr = 0\<rparr>),
     encls := (\<lambda>e. if e = 1
        then zero_encl\<lparr>encl_flags := {SGX_ENCL_CREATED, SGX_ENCL_INITIALIZED}, refcount := 2,
               secs_child_cnt := 2, secs_epc_page := Some 8,
               va_pages := [\<lparr>va_epc_page = 9, slots = [False, False]\<rparr>],
               mm_list := [4, 5, 6]\<rparr>
        else zero_encl),
     mms := (\<lambda>m. if m = 4 then \<lparr>mm_users = 1, mmap = []\<rparr>
                 else if m = 5 then \<lparr>mm_users = 2, mmap = []\<rparr>
                 else \<lparr>mm_users = 0, mmap = []\<rparr>)\<rparr>"

subsection \<open>The reclaimer: age, block, write\<close>

text \<open>The walk of \<^verbatim>\<open>sgx_reclaimer_age\<close> over the address spaces; \<open>r\<close> is the
  variable \<open>ret\<close>.  \<^verbatim>\<open>sgx_encl_test_and_clear_young\<close> belongs to the enclave module.\<close>

fun age_mms :: "ext \<Rightarrow> nat \<Rightarrow> encl_ref \<Rightarrow> mm_ref list \<Rightarrow> bool \<Rightarrow> sgx_state \<Rightarrow> bool \<times> sgx_state" where
  "age_mms x ep e [] r s = (r, s)"
| "age_mms x ep e (m # ms) r s =
     (let g = mmget_not_zero m s
      in if \<not> fst g then age_mms x ep e ms r (snd g)
         else (let c = call x (TEST_AND_CLEAR_YOUNG m ep) (snd g);
                   r1 = (fst c = 0);
                   s1 = mmput_async m (snd c)
               in if \<not> r1 \<or> encl_flags (encls s1 e) \<inter> SGX_ENCL_DEAD_OR_OOM \<noteq> {}
                  then (r1, s1)
                  else age_mms x ep e ms r1 s1))"

definition sgx_reclaimer_age :: "ext \<Rightarrow> page_ref \<Rightarrow> sgx_state \<Rightarrow> bool \<times> sgx_state" where
  "sgx_reclaimer_age x p s =
     (let ep = owner (pages s p);
          e = encl (encl_pages s ep);
          a = age_mms x ep e (mm_list (encls s e)) True s
      in (\<not> (\<not> fst a \<and> encl_flags (encls (snd a) e) \<inter> SGX_ENCL_DEAD_OR_OOM = {}), snd a))"

text \<open>Modelled from the spec: \<^verbatim>\<open>encl_find_mapping(mm, addr)\<close> of the enclave module
  (\<^verbatim>\<open>sgx_encl_find\<close> of encl.h, not part of the sources at hand) yields the area of
  the address space that maps the enclave address, if there is one: the area found by
  \<^verbatim>\<open>find_vma\<close>, provided it is an enclave area and starts at or below the address.\<close>

definition sgx_encl_find :: "ext \<Rightarrow> vm_area_struct list \<Rightarrow> 64 word \<Rightarrow> vm_area_struct option" where
  "sgx_encl_find x vmas addr =
     (case find_vma vmas addr of
        [] \<Rightarrow> None
      | v # vs \<Rightarrow> if vm_ops v \<noteq> sgx_vm_ops x \<or> addr < vm_start v then None else Some v)"

text \<open>The walk of \<^verbatim>\<open>sgx_reclaimer_block\<close> over the address spaces (its enclosing
  \<^verbatim>\<open>do ... while\<close> runs once, as in \<open>oom_zap_mms\<close>).\<close>

fun block_mms :: "ext \<Rightarrow> encl_ref \<Rightarrow> 64 word \<Rightarrow> mm_ref list \<Rightarrow> sgx_state \<Rightarrow> sgx_state" where
  "block_mms x e addr [] s = s"
| "block_mms x e addr (m # ms) s =
     (let g = mmget_not_zero m s
      in if \<not> fst g then block_mms x e addr ms (snd g)
         else (let s1 = snd g;
                   s2 = (case sgx_encl_find x (mmap (mms s1 m)) addr of
                           None \<Rightarrow> s1
                         | Some vma \<Rightarrow>
                             if vm_private_data vma = e then emit (ZAP_VMA_PTES m addr) s1
                             else s1)
               in block_mms x e addr ms (mmput_async m s2)))"

definition sgx_reclaimer_block :: "ext \<Rightarrow> page_ref \<Rightarrow> sgx_state \<Rightarrow> sgx_state" where
  "sgx_reclaimer_block x p s =
     (let ep = owner (pages s p);
          addr = page_addr (encl_pages s ep);
          e = encl (encl_pages s ep);
          s1 = block_mms x e addr (mm_list (encls s e)) s
      in if SGX_ENCL_DEAD \<notin> encl_flags (encls s1 e)
         then (let r = call x (EBLOCK p) s1
               in if encls_failed x (fst r) then emit (ENCLS_WARN ''EBLOCK'') (snd r) else snd r)
         else s1)"

definition set_secs_epc_page :: "encl_ref \<Rightarrow> page_ref option \<Rightarrow> sgx_state \<Rightarrow> sgx_state" where
  "set_secs_epc_page e q s = s\<lparr>encls := (encls s)(e := (encls s e)\<lparr>secs_epc_page := q\<rparr>)\<rparr>"

text \<open>The part of \<^verbatim>\<open>sgx_reclaimer_write\<close> under \<^verbatim>\<open>if (!encl->secs_child_cnt)\<close>.
  \<^verbatim>\<open>sgx_drop_epc_page\<close> and \<^verbatim>\<open>sgx_free_epc_page\<close> read the descriptor of the SECS
  page through the pointer \<^verbatim>\<open>encl->secs.epc_page\<close>; the value that
  \<^verbatim>\<open>sgx_drop_epc_page\<close> returns is not looked at.\<close>

definition write_secs :: "ext \<Rightarrow> encl_ref \<Rightarrow> sgx_state \<Rightarrow> fault + sgx_state" where
  "write_secs x e s =
     (if SGX_ENCL_DEAD \<in> encl_flags (encls s e)
      then (case secs_epc_page (encls s e) of
              None \<Rightarrow> Inl NULL_POINTER_DEREFERENCE
            | Some q \<Rightarrow>
                (case sgx_drop_epc_page q s of
                   Inl f \<Rightarrow> Inl f
                 | Inr d \<Rightarrow>
                     Inr (set_secs_epc_page e None (sgx_free_epc_page x q (snd d)))))
      else if SGX_ENCL_INITIALIZED \<in> encl_flags (encls s e)
      then (let b = call x (ENCL_GET_BACKING e (unat (drop_bit 12 (encl_size (encls s e))))) s
            in if fst b \<noteq> 0 then Inr (snd b)
               else (case secs_epc_page (encls (snd b) e) of
                       None \<Rightarrow> Inl NULL_POINTER_DEREFERENCE
                     | Some q \<Rightarrow>
                         (case sgx_encl_ewb x q (snd b) of
                            Inl f \<Rightarrow> Inl f
                          | Inr s1 \<Rightarrow>
                              (case sgx_drop_epc_page q s1 of
                                 Inl f \<Rightarrow> Inl f
                               | Inr d \<Rightarrow>
                                   Inr (emit (ENCL_PUT_BACKING None)
                                          (set_secs_epc_page e None
                                             (sgx_free_epc_page x q (snd d))))))))
      else Inr s)"

text \<open>The end of \<^verbatim>\<open>sgx_reclaimer_write\<close>, from \<^verbatim>\<open>encl_page->epc_page = NULL\<close> on.\<close>

definition write_tail :: "ext \<Rightarrow> nat \<Rightarrow> encl_ref \<Rightarrow> sgx_state \<Rightarrow> fault + sgx_state" where
  "write_tail x ep e s1 =
     (let s2 = s1\<lparr>encl_pages := (encl_pages s1)(ep := (encl_pages s1 ep)\<lparr>epc_page := None\<rparr>)\<rparr>;
          s3 = s2\<lparr>encls := (encls s2)(e := (encls s2 e)
                  \<lparr>secs_child_cnt := secs_child_cnt (encls s2 e) - 1\<rparr>)\<rparr>
      in if secs_child_cnt (encls s3 e) = 0 then write_secs x e s3 else Inr s3)"

definition sgx_reclaimer_write :: "ext \<Rightarrow> page_ref \<Rightarrow> sgx_state \<Rightarrow> fault + sgx_state" where
  "sgx_reclaimer_write x p s =
     (let ep = owner (pages s p);
          e = encl (encl_pages s ep)
      in case (if SGX_ENCL_DEAD \<in> encl_flags (encls s e)
               then (let r = call x (EREMOVE p) s
                     in Inr (if fst r \<noteq> 0 then emit (ENCLS_WARN ''EREMOVE'') (snd r) else snd r))
               else sgx_encl_ewb x p s) of
           Inl f \<Rightarrow> Inl f
         | Inr s1 \<Rightarrow> write_tail x ep e s1)"

subsection \<open>sgx_reclaim_epc_pages\<close>

text \<open>The label \<^verbatim>\<open>skip\<close> of the first loop.\<close>

definition reclaim_skip :: "page_ref \<Rightarrow> sgx_state \<Rightarrow> sgx_state" where
  "reclaim_skip p s =
     (let lru = sgx_lru s p;
          s1 = set_desc p (desc (pages s p) - {SGX_EPC_PAGE_RECLAIM_IN_PROGRESS}) s;
          s2 = lru_add_tail_reclaimable lru p s1
      in kref_put (encl_of s p) s2)"

text \<open>The first loop of \<^verbatim>\<open>sgx_reclaim_epc_pages\<close> over the list \<open>iso\<close>.  It yields the
  list as the loop leaves it, the pages it has skipped (for the statements below; the
  C code keeps no such list), the counter \<open>i\<close> and the state.\<close>

fun reclaim_scan ::
  "ext \<Rightarrow> bool \<Rightarrow> page_ref list \<Rightarrow> nat \<Rightarrow> sgx_state \<Rightarrow>
   page_ref list \<times> page_ref list \<times> nat \<times> sgx_state" where
  "reclaim_scan x ignore_age [] i s = ([], [], i, s)"
| "reclaim_scan x ignore_age (p # ps) i s =
     (let ep = owner (pages s p);
          a = (if i = SGX_MAX_NR_TO_RECLAIM then (False, s)
               else if ignore_age then (True, s)
               else sgx_reclaimer_age x p s);
          b = (if fst a
               then call x (ENCL_GET_BACKING (encl (encl_pages (snd a) ep)) (SGX_ENCL_PAGE_INDEX x ep))
                      (snd a)
               else (0, snd a))
      in if fst a \<and> fst b = 0
         then (let s1 = (snd b)\<lparr>encl_pages := (encl_pages (snd b))
                          (ep := (encl_pages (snd b) ep)\<lparr>reclaimed := True\<rparr>)\<rparr>;
                   r = reclaim_scan x ignore_age ps (i + 1) s1
               in (p # fst r, snd r))
         else (let r = reclaim_scan x ignore_age ps i (reclaim_skip p (snd b))
               in (fst r, p # fst (snd r), snd (snd r))))"

fun reclaim_block :: "ext \<Rightarrow> page_ref list \<Rightarrow> sgx_state \<Rightarrow> sgx_state" where
  "reclaim_block x [] s = s"
| "reclaim_block x (p # ps) s = reclaim_block x ps (sgx_reclaimer_block x p s)"

text \<open>The end of the body of the last loop, after \<^verbatim>\<open>sgx_reclaimer_write\<close>.\<close>

definition reclaim_release :: "page_ref \<Rightarrow> nat \<Rightarrow> sgx_state \<Rightarrow> sgx_state" where
  "reclaim_release p i s =
     (let s1 = kref_put (encl_of s p) (emit (ENCL_PUT_BACKING (Some i)) s);
          s2 = set_desc p (desc (pages s1 p) - SGX_EPC_PAGE_RECLAIM_FLAGS) s1;
          s3 = (case epc_cg (pages s2 p) of
                  None \<Rightarrow> s2
                | Some cg \<Rightarrow> (emit (CGROUP_UNCHARGE cg True) s2)
                     \<lparr>pages := (pages s2)(p := (pages s2 p)\<lparr>epc_cg := None\<rparr>)\<rparr>);
          k = section_idx (pages s3 p);
          sec = sgx_epc_sections s3 k
      in s3\<lparr>sgx_epc_sections := (sgx_epc_sections s3)
              (k := sec\<lparr>page_list := page_list sec @ [p], free_cnt := free_cnt sec + 1\<rparr>)\<rparr>)"

fun reclaim_write :: "ext \<Rightarrow> page_ref list \<Rightarrow> nat \<Rightarrow> sgx_state \<Rightarrow> fault + (nat \<times> sgx_state)" where
  "reclaim_write x [] i s = Inr (i, s)"
| "reclaim_write x (p # ps) i s =
     (case sgx_reclaimer_write x p s of
        Inl f \<Rightarrow> Inl f
      | Inr s1 \<Rightarrow> reclaim_write x ps (i + 1) (reclaim_release p i s1))"

text \<open>\<^verbatim>\<open>sgx_reclaim_epc_pages(nr_to_scan, ignore_age, NULL)\<close>.\<close>

definition sgx_reclaim_epc_pages :: "ext \<Rightarrow> int \<Rightarrow> bool \<Rightarrow> sgx_state \<Rightarrow> fault + (int \<times> sgx_state)" where
  "sgx_reclaim_epc_pages x nr_to_scan ignore_age s =
     (let iso = fst (snd (sgx_isolate_epc_pages None nr_to_scan [] s));
          s1 = snd (snd (sgx_isolate_epc_pages None nr_to_scan [] s))
      in if iso = [] then Inr (0, emit COND_RESCHED s1)
         else (let a = reclaim_scan x ignore_age iso 0 s1;
                   s2 = reclaim_block x (fst a) (snd (snd (snd a)))
               in case reclaim_write x (fst a) 0 s2 of
                    Inl f \<Rightarrow> Inl f
                  | Inr (i, s3) \<Rightarrow> Inr (int i, emit COND_RESCHED s3)))"

subsection \<open>Invariants of the reclaimer\<close>

text \<open>The part of the state that the list and reference-count invariants read.\<close>

definition core ::
  "sgx_state \<Rightarrow> (page_ref \<Rightarrow> sgx_epc_page) \<times> (nat option \<Rightarrow> sgx_epc_lru) \<times> (nat \<Rightarrow> sgx_epc_section) \<times>
     (encl_ref \<Rightarrow> nat \<times> page_ref option) \<times> (nat \<Rightarrow> encl_ref)" where
  "core s = (pages s, lrus s, sgx_epc_sections s,
             (\<lambda>e. (refcount (encls s e), secs_epc_page (encls s e))),
             (\<lambda>ep. encl (encl_pages s ep)))"

text \<open>A page is the SECS page of some enclave.\<close>

definition is_secs :: "sgx_state \<Rightarrow> page_ref \<Rightarrow> bool" where
  "is_secs s q \<longleftrightarrow> (\<exists>e. secs_epc_page (encls s e) = Some q)"

text \<open>The number of pages of a list that belong to an enclave.\<close>

definition held :: "sgx_state \<Rightarrow> page_ref list \<Rightarrow> encl_ref \<Rightarrow> nat" where
  "held s ps e = length (filter (\<lambda>p. encl_of s p = e) ps)"

text \<open>SECS pages are on no free, unsanitized or reclaimable list, and no two enclaves
  have the same SECS page.\<close>

definition secs_wf :: "sgx_state \<Rightarrow> bool" where
  "secs_wf s \<longleftrightarrow>
     (\<forall>q. is_secs s q \<longrightarrow>
        (\<forall>k. q \<notin> set (page_list (sgx_epc_sections s k)) \<and>
             q \<notin> set (unsanitized_page_list (sgx_epc_sections s k))) \<and>
        (\<forall>c. q \<notin> set (reclaimable (lrus s c)))) \<and>
     (\<forall>e e' q. secs_epc_page (encls s e) = Some q \<longrightarrow> secs_epc_page (encls s e') = Some q \<longrightarrow> e = e')"

text \<open>The counter of every section is the number of pages on its free list and on
  its unsanitized list together (in the arithmetic of \<^verbatim>\<open>unsigned long\<close>).\<close>

definition free_cnt_ok :: "sgx_state \<Rightarrow> bool" where
  "free_cnt_ok s \<longleftrightarrow>
     (\<forall>k. free_cnt (sgx_epc_sections s k) =
          of_nat (length (page_list (sgx_epc_sections s k)) +
                  length (unsanitized_page_list (sgx_epc_sections s k))))"

text \<open>What the second and the third loop of \<^verbatim>\<open>sgx_reclaim_epc_pages\<close> leave alone.\<close>

definition frame :: "sgx_state \<Rightarrow> sgx_state \<Rightarrow> bool" where
  "frame s s' \<longleftrightarrow>
     (\<forall>c. reclaimable (lrus s' c) = reclaimable (lrus s c)) \<and>
     (\<forall>p. owner (pages s' p) = owner (pages s p) \<and>
          section_idx (pages s' p) = section_idx (pages s p) \<and>
          desc (pages s' p) \<subseteq> desc (pages s p)) \<and>
     (\<forall>ep. encl (encl_pages s' ep) = encl (encl_pages s ep)) \<and>
     (\<forall>e q. secs_epc_page (encls s' e) = Some q \<longrightarrow> secs_epc_page (encls s e) = Some q) \<and>
     (\<forall>k p. p \<in> set (page_list (sgx_epc_sections s k)) \<longrightarrow>
            p \<in> set (page_list (sgx_epc_sections s' k)))"

text \<open>What \<^verbatim>\<open>sgx_isolate_epc_pages\<close> does when it has moved the pages \<open>moved\<close>.\<close>

definition iso_rel :: "nat option \<Rightarrow> sgx_state \<Rightarrow> page_ref list \<Rightarrow> sgx_state \<Rightarrow> bool" where
  "iso_rel lru s moved s' \<longleftrightarrow>
     set moved \<subseteq> set (reclaimable (lrus s lru)) \<and>
     (\<forall>e. refcount (encls s' e) = refcount (encls s e) + held s moved e) \<and>
     set (reclaimable (lrus s' lru)) \<subseteq> set (reclaimable (lrus s lru)) \<and>
     (\<forall>c. c \<noteq> lru \<longrightarrow> lrus s' c = lrus s c) \<and>
     sgx_epc_sections s' = sgx_epc_sections s \<and>
     encl_pages s' = encl_pages s \<and>
     (\<forall>e. secs_epc_page (encls s' e) = secs_epc_page (encls s e)) \<and>
     (\<forall>p. owner (pages s' p) = owner (pages s p) \<and>
          section_idx (pages s' p) = section_idx (pages s p) \<and>
          epc_cg (pages s' p) = epc_cg (pages s p))"

text \<open>What the first loop of \<^verbatim>\<open>sgx_reclaim_epc_pages\<close> does to the list \<open>ps\<close>.\<close>

definition scan_rel :: "sgx_state \<Rightarrow> page_ref list \<Rightarrow> page_ref list \<Rightarrow> page_ref list \<Rightarrow> sgx_state \<Rightarrow> bool" where
  "scan_rel s ps kept skipped s' \<longleftrightarrow>
     length kept + length skipped = length ps \<and>
     set kept \<union> set skipped = set ps \<and>
     (\<forall>e. held s ps e = held s kept e + held s skipped e) \<and>
     (\<forall>p. owner (pages s' p) = owner (pages s p) \<and>
          section_idx (pages s' p) = section_idx (pages s p) \<and>
          epc_cg (pages s' p) = epc_cg (pages s p) \<and>
          desc (pages s' p) \<subseteq> desc (pages s p)) \<and>
     (\<forall>p\<in>set skipped. SGX_EPC_PAGE_RECLAIM_IN_PROGRESS \<notin> desc (pages s' p)) \<and>
     (\<forall>c. reclaimable (lrus s' c) = reclaimable (lrus s c) @ filter (\<lambda>p. sgx_lru s p = c) skipped) \<and>
     sgx_epc_sections s' = sgx_epc_sections s \<and>
     (\<forall>e. secs_epc_page (encls s' e) = secs_epc_page (encls s e)) \<and>
     (\<forall>ep. encl (encl_pages s' ep) = encl (encl_pages s ep)) \<and>
     (\<forall>e. refcount (encls s' e) = refcount (encls s e) - held s skipped e)"

subsection \<open>A reclaim pass that writes back the last child of an enclave\<close>

text \<open>The global reclaimable list holds page 2, the only child page of enclave 1, and
  page 3, the only child page of enclave 2; page \<open>p\<close> is owned by enclave page \<open>p\<close>.
  Both enclaves are initialised and alive.  Their SECS pages 8 and 7 (owned by the
  enclave pages 8 and 7) are on the unreclaimable list; each has one version page
  (EPC pages 9 and 10).  There is one section, and all free lists are empty.  With \<open>reclaim_ext\<close> every hardware
  and backing call succeeds, and enclave page 3 is found young.\<close>

definition reclaim_ext :: ext where
  "reclaim_ext = \<lparr>
     ret = (\<lambda>ev k. case ev of
              TEST_AND_CLEAR_YOUNG m ep \<Rightarrow> (if ep = 3 then 1 else 0)
            | _ \<Rightarrow> 0),
     mm_cpumask = (\<lambda>m tr. {}),
     virt_epc_get_ref = (\<lambda>_. False),
     sgx_vm_ops = 1,
     encls_failed = (\<lambda>r. r \<noteq> 0),
     SGX_ENCL_PAGE_INDEX = (\<lambda>ep. ep),
     SGX_NR_LOW_PAGES = 32,
     SGX_NR_HIGH_PAGES = 64\<rparr>"

definition reclaim_state :: sgx_state where
  "reclaim_state = zero_state\<lparr>
     pages := (\<lambda>p. if p = 2 \<or> p = 3
        then zero_page\<lparr>desc := {SGX_EPC_PAGE_ENCLAVE, SGX_EPC_PAGE_RECLAIMABLE}, owner := p\<rparr>
        else zero_page\<lparr>owner := p\<rparr>),
     encl_pages := (\<lambda>ep. \<lparr>encl = (if ep = 3 \<or> ep = 7 then 2 else 1), reclaimed = False,
        va_offset = 0, va_page = None, epc_page = Some ep, page_addr = 0\<rparr>),
     encls := (\<lambda>e. if e = 1
        then zero_encl\<lparr>encl_flags := {SGX_ENCL_CREATED, SGX_ENCL_INITIALIZED}, refcount := 1,
               secs_child_cnt := 1, secs_epc_page := Some 8,
               va_pages := [\<lparr>va_epc_page = 9, slots = [False, False]\<rparr>], mm_list := [4]\<rparr>
        else if e = 2
        then zero_encl\<lparr>encl_flags := {SGX_ENCL_CREATED, SGX_ENCL_INITIALIZED}, refcount := 1,
               secs_child_cnt := 1, secs_epc_page := Some 7,
               va_pages := [\<lparr>va_epc_page = 10, slots = [False, False]\<rparr>], mm_list := [5]\<rparr>
        else zero_encl),
     mms := (\<lambda>m. if m = 4 \<or> m = 5 then \<lparr>mm_users = 1, mmap = []\<rparr>
                 else \<lparr>mm_users = 0, mmap = []\<rparr>),
     lrus := (\<lambda>c. if c = None then \<lparr>reclaimable = [2, 3], unreclaimable = [8, 7]\<rparr>
        else \<lparr>reclaimable = [], unreclaimable = []\<rparr>),
     sgx_nr_epc_sections := 1\<rparr>"

subsection \<open>sgx_alloc_epc_page\<close>

text \<open>\<^verbatim>\<open>sgx_nr_free_pages\<close>: the sum of the counters, in \<^verbatim>\<open>unsigned long\<close>.\<close>

fun sum_free_cnt :: "nat list \<Rightarrow> 64 word \<Rightarrow> sgx_state \<Rightarrow> 64 word" where
  "sum_free_cnt [] cnt s = cnt"
| "sum_free_cnt (i # is) cnt s = sum_free_cnt is (cnt + free_cnt (sgx_epc_sections s i)) s"

definition sgx_nr_free_pages :: "sgx_state \<Rightarrow> 64 word" where
  "sgx_nr_free_pages s = sum_free_cnt [0..<sgx_nr_epc_sections s] 0 s"

definition sgx_can_reclaim :: "sgx_state \<Rightarrow> bool" where
  "sgx_can_reclaim s \<longleftrightarrow> reclaimable (lrus s None) \<noteq> []"

definition sgx_should_reclaim :: "64 word \<Rightarrow> sgx_state \<Rightarrow> bool" where
  "sgx_should_reclaim watermark s \<longleftrightarrow> sgx_nr_free_pages s < watermark \<and> sgx_can_reclaim s"

text \<open>The loop \<^verbatim>\<open>for ( ; ; )\<close> of \<^verbatim>\<open>sgx_alloc_epc_page\<close>.  Nothing bounds the number
  of its iterations, so it is a partial function: \<open>None\<close> means that the loop runs
  forever.  A fault in the reclaimer ends it with \<open>Inl\<close>.\<close>

partial_function (option) alloc_loop ::
  "ext \<Rightarrow> nat \<Rightarrow> bool \<Rightarrow> sgx_state \<Rightarrow> (fault + (errno + page_ref) \<times> sgx_state) option" where
  "alloc_loop x own reclaim s =
     (case uu_sgx_alloc_epc_page s of
        (Inr entry, s1) \<Rightarrow>
          Some (Inr (Inr entry, s1\<lparr>pages := (pages s1)(entry := (pages s1 entry)\<lparr>owner := own\<rparr>)\<rparr>))
      | (Inl e, s1) \<Rightarrow>
          if \<not> sgx_can_reclaim s1 then Some (Inr (Inl ENOMEM, s1))
          else if \<not> reclaim then Some (Inr (Inl EBUSY, s1))
          else if fst (call x SIGNAL_PENDING s1) \<noteq> 0
          then Some (Inr (Inl ERESTARTSYS, snd (call x SIGNAL_PENDING s1)))
          else (case sgx_reclaim_epc_pages x SGX_NR_TO_SCAN False (snd (call x SIGNAL_PENDING s1)) of
                  Inl f \<Rightarrow> Some (Inl f)
                | Inr (c, s2) \<Rightarrow> alloc_loop x own reclaim s2))"

declare alloc_loop.simps [code]

definition sgx_alloc_epc_page ::
  "ext \<Rightarrow> nat \<Rightarrow> bool \<Rightarrow> sgx_state \<Rightarrow> (fault + (errno + page_ref) \<times> sgx_state) option" where
  "sgx_alloc_epc_page x own reclaim s =
     (case alloc_loop x own reclaim s of
        None \<Rightarrow> None
      | Some (Inl f) \<Rightarrow> Some (Inl f)
      | Some (Inr (entry, s1)) \<Rightarrow>
          Some (Inr (entry,
            if sgx_should_reclaim (of_nat (SGX_NR_LOW_PAGES x)) s1 then emit WAKE_UP s1 else s1)))"

subsection \<open>Scenario S4 of the specification: allocation cancellation\<close>

text \<open>As \<open>reclaim_ext\<close>, with a signal pending for the caller.\<close>

definition s4_ext :: ext where
  "s4_ext = reclaim_ext\<lparr>ret := (\<lambda>ev k. case ev of SIGNAL_PENDING \<Rightarrow> 1 | _ \<Rightarrow> 0)\<rparr>"

text \<open>What \<^verbatim>\<open>sgx_alloc_epc_page\<close> may return: a page bound to the owner;
  \<^verbatim>\<open>-ENOMEM\<close>, and then the reclaimable list is empty; \<^verbatim>\<open>-EBUSY\<close>, only when
  \<open>reclaim\<close> is false; \<^verbatim>\<open>-ERESTARTSYS\<close>, only when \<open>reclaim\<close> is true; and it can
  end in a fault of the reclaimer only when \<open>reclaim\<close> is true.\<close>

definition alloc_post ::
  "nat \<Rightarrow> bool \<Rightarrow> (fault + (errno + page_ref) \<times> sgx_state) \<Rightarrow> bool" where
  "alloc_post own reclaim y \<longleftrightarrow>
     (case y of
        Inl f \<Rightarrow> reclaim
      | Inr (r, s') \<Rightarrow>
          (\<exists>p. r = Inr p \<and> owner (pages s' p) = own) \<or>
          r = Inl ENOMEM \<and> \<not> sgx_can_reclaim s' \<or>
          r = Inl EBUSY \<and> \<not> reclaim \<and> sgx_can_reclaim s' \<or>
          r = Inl ERESTARTSYS \<and> reclaim \<and> sgx_can_reclaim s')"

subsection \<open>Boot of a section of two pages\<close>

text \<open>\<^verbatim>\<open>memremap\<close> succeeds, the \<open>k\<close>-th \<^verbatim>\<open>kzalloc\<close> returns the handle \<open>100 + k\<close>, and
  every other call returns 0: \<^verbatim>\<open>EREMOVE\<close> never fails.\<close>

definition boot_ext :: ext where
  "boot_ext = reclaim_ext\<lparr>ret := (\<lambda>ev k. case ev of
       MEMREMAP a sz \<Rightarrow> 1
     | KZALLOC \<Rightarrow> 100 + int k
     | _ \<Rightarrow> 0)\<rparr>"

definition boot_state :: sgx_state where
  "boot_state = (snd (sgx_setup_epc_section boot_ext 0x80000000 0x2000 0 0 zero_state))
     \<lparr>sgx_nr_epc_sections := 1\<rparr>"

subsection \<open>The free counters across an allocation\<close>

text \<open>What a call of \<^verbatim>\<open>sgx_alloc_epc_page\<close> in the state \<open>s\<close> keeps, if it does not
  end in a fault of the reclaimer.\<close>

definition alloc_inv :: "sgx_state \<Rightarrow> (fault + (errno + page_ref) \<times> sgx_state) \<Rightarrow> bool" where
  "alloc_inv s y \<longleftrightarrow>
     (secs_wf s \<and> free_cnt_ok s \<longrightarrow>
        (case y of Inl f \<Rightarrow> True | Inr (r, s') \<Rightarrow> free_cnt_ok s' \<and> secs_wf s'))"

text \<open>As \<open>boot_ext\<close>, but the second \<^verbatim>\<open>kzalloc\<close> fails.\<close>

definition boot_fail_ext :: ext where
  "boot_fail_ext = reclaim_ext\<lparr>ret := (\<lambda>ev k. case ev of
       MEMREMAP a sz \<Rightarrow> 1
     | KZALLOC \<Rightarrow> (if k = 0 then 100 else 0)
     | _ \<Rightarrow> 0)\<rparr>"

section \<open>Theorems\<close>

lemma set_desc_lists [simp]:
  "sgx_epc_sections (set_desc p d s) = sgx_epc_sections s"
  "lrus (set_desc p d s) = lrus s"
  by (simp_all add: set_desc_def)

lemma pages_set_desc [simp]:
  "pages (set_desc p d s) q = (if q = p then (pages s p)\<lparr>desc := d\<rparr> else pages s q)"
  by (simp add: set_desc_def)

lemma on_some_list_set_desc [simp]: "on_some_list (set_desc p d s) q = on_some_list s q"
  by (simp add: on_some_list_def)

text \<open>
  C7.  \<^verbatim>\<open>sgx_drop_epc_page(page)\<close> returns \<^verbatim>\<open>-EBUSY\<close> exactly when the page
  has both \<^verbatim>\<open>RECLAIMABLE\<close> and \<^verbatim>\<open>RECLAIM_IN_PROGRESS\<close> set, and then the whole
  state (flags and every list) is unchanged.  In every other case, for a page whose
  list node is not poisoned (it is linked on a list, or linked to itself), it
  returns success; the page is on no list of the state any more, every list is the
  list it was without the page, both reclaim flags of the page are clear and its
  node is poisoned; the counters of the sections, the other flags of the page, the
  descriptors of all other pages, the enclaves, the address spaces and the trace are
  as before.  For a page whose node is poisoned (it was dropped before and not
  recorded or freed since) and that has not both flags set, \<^verbatim>\<open>list_del\<close> faults.
\<close>

theorem sgx_drop_epc_page_spec:
  "((\<exists>s'. sgx_drop_epc_page p s = Inr (Inl EBUSY, s')) \<longleftrightarrow>
      SGX_EPC_PAGE_RECLAIMABLE \<in> desc (pages s p) \<and>
      SGX_EPC_PAGE_RECLAIM_IN_PROGRESS \<in> desc (pages s p)) \<and>
   (SGX_EPC_PAGE_RECLAIMABLE \<in> desc (pages s p) \<and>
    SGX_EPC_PAGE_RECLAIM_IN_PROGRESS \<in> desc (pages s p) \<longrightarrow>
      sgx_drop_epc_page p s = Inr (Inl EBUSY, s)) \<and>
   (\<not> (SGX_EPC_PAGE_RECLAIMABLE \<in> desc (pages s p) \<and>
       SGX_EPC_PAGE_RECLAIM_IN_PROGRESS \<in> desc (pages s p)) \<and>
    \<not> list_poison (pages s p) \<longrightarrow>
      (\<exists>s'. sgx_drop_epc_page p s = Inr (Inr (), s') \<and>
         \<not> on_some_list s' p \<and>
         (\<forall>i. sgx_epc_sections s' i = (sgx_epc_sections s i)\<lparr>
            page_list := removeAll p (page_list (sgx_epc_sections s i)),
            unsanitized_page_list := removeAll p (unsanitized_page_list (sgx_epc_sections s i))\<rparr>) \<and>
         (\<forall>c. lrus s' c = (lrus s c)\<lparr>
            reclaimable := removeAll p (reclaimable (lrus s c)),
            unreclaimable := removeAll p (unreclaimable (lrus s c))\<rparr>) \<and>
         pages s' = (pages s)(p := (pages s p)\<lparr>
            desc := desc (pages s p) - SGX_EPC_PAGE_RECLAIM_FLAGS, list_poison := True\<rparr>) \<and>
         SGX_EPC_PAGE_RECLAIMABLE \<notin> desc (pages s' p) \<and>
         SGX_EPC_PAGE_RECLAIM_IN_PROGRESS \<notin> desc (pages s' p) \<and>
         sgx_nr_epc_sections s' = sgx_nr_epc_sections s \<and>
         encls s' = encls s \<and> encl_pages s' = encl_pages s \<and> mms s' = mms s \<and>
         trace s' = trace s)) \<and>
   (\<not> (SGX_EPC_PAGE_RECLAIMABLE \<in> desc (pages s p) \<and>
       SGX_EPC_PAGE_RECLAIM_IN_PROGRESS \<in> desc (pages s p)) \<and>
    list_poison (pages s p) \<longrightarrow>
      sgx_drop_epc_page p s = Inl LIST_POISON_DEREFERENCE)"
proof (cases "SGX_EPC_PAGE_RECLAIMABLE \<in> desc (pages s p) \<and>
    SGX_EPC_PAGE_RECLAIM_IN_PROGRESS \<in> desc (pages s p)")
  case True
  then show ?thesis by (simp add: sgx_drop_epc_page_def)
next
  case nb: False
  show ?thesis
  proof (cases "list_poison (pages s p)")
    case True
    with nb show ?thesis by (simp add: sgx_drop_epc_page_def list_del_def)
  next
    case False
    with nb show ?thesis
      by (auto simp: sgx_drop_epc_page_def list_del_def on_some_list_def set_desc_def
          SGX_EPC_PAGE_RECLAIM_FLAGS_def fun_eq_iff)
  qed
qed

lemma drop_scenario:
  "SGX_EPC_PAGE_RECLAIMABLE \<in> desc (pages (sgx_record_epc_page 1
      {SGX_EPC_PAGE_ENCLAVE, SGX_EPC_PAGE_RECLAIMABLE, SGX_EPC_PAGE_RECLAIM_IN_PROGRESS}
      zero_state) 1)"
  "SGX_EPC_PAGE_RECLAIM_IN_PROGRESS \<in> desc (pages (sgx_record_epc_page 1
      {SGX_EPC_PAGE_ENCLAVE, SGX_EPC_PAGE_RECLAIMABLE, SGX_EPC_PAGE_RECLAIM_IN_PROGRESS}
      zero_state) 1)"
  "desc (pages (sgx_record_epc_page 1
      {SGX_EPC_PAGE_ENCLAVE, SGX_EPC_PAGE_RECLAIMABLE} zero_state) 1) =
     {SGX_EPC_PAGE_ENCLAVE, SGX_EPC_PAGE_RECLAIMABLE}"
  "\<not> list_poison (pages (sgx_record_epc_page 1
      {SGX_EPC_PAGE_ENCLAVE, SGX_EPC_PAGE_RECLAIMABLE} zero_state) 1)"
  "reclaimable (lrus (sgx_record_epc_page 1
      {SGX_EPC_PAGE_ENCLAVE, SGX_EPC_PAGE_RECLAIMABLE} zero_state) None) = [1]"
  by (simp_all add: sgx_record_epc_page_def Let_def sgx_lru_def zero_state_def zero_page_def
      lru_add_tail_reclaimable_def list_add_tail_node_def SGX_EPC_PAGE_RECLAIM_FLAGS_def)

theorem sgx_drop_epc_page_spec_witness:
  "sgx_drop_epc_page 1 (sgx_record_epc_page 1
      {SGX_EPC_PAGE_ENCLAVE, SGX_EPC_PAGE_RECLAIMABLE, SGX_EPC_PAGE_RECLAIM_IN_PROGRESS}
      zero_state) =
     Inr (Inl EBUSY, sgx_record_epc_page 1
      {SGX_EPC_PAGE_ENCLAVE, SGX_EPC_PAGE_RECLAIMABLE, SGX_EPC_PAGE_RECLAIM_IN_PROGRESS}
      zero_state) \<and>
   (\<exists>s'. sgx_drop_epc_page 1 (sgx_record_epc_page 1
        {SGX_EPC_PAGE_ENCLAVE, SGX_EPC_PAGE_RECLAIMABLE} zero_state) = Inr (Inr (), s') \<and>
      \<not> on_some_list s' 1 \<and> reclaimable (lrus s' None) = [] \<and>
      desc (pages s' 1) = {SGX_EPC_PAGE_ENCLAVE} \<and>
      sgx_drop_epc_page 1 s' = Inl LIST_POISON_DEREFERENCE)"
proof -
  let ?b = "sgx_record_epc_page 1
      {SGX_EPC_PAGE_ENCLAVE, SGX_EPC_PAGE_RECLAIMABLE, SGX_EPC_PAGE_RECLAIM_IN_PROGRESS}
      zero_state"
  let ?r = "sgx_record_epc_page 1 {SGX_EPC_PAGE_ENCLAVE, SGX_EPC_PAGE_RECLAIMABLE} zero_state"
  have w1: "sgx_drop_epc_page 1 ?b = Inr (Inl EBUSY, ?b)"
    using sgx_drop_epc_page_spec [of 1 ?b, THEN conjunct2, THEN conjunct1] drop_scenario(1,2)
    by blast
  have nb: "\<not> (SGX_EPC_PAGE_RECLAIMABLE \<in> desc (pages ?r 1) \<and>
       SGX_EPC_PAGE_RECLAIM_IN_PROGRESS \<in> desc (pages ?r 1))"
    using drop_scenario(3) by simp
  obtain s' where d: "sgx_drop_epc_page 1 ?r = Inr (Inr (), s')"
    and l: "\<not> on_some_list s' 1"
    and r: "lrus s' None = (lrus ?r None)\<lparr>
            reclaimable := removeAll 1 (reclaimable (lrus ?r None)),
            unreclaimable := removeAll 1 (unreclaimable (lrus ?r None))\<rparr>"
    and pg: "pages s' = (pages ?r)(1 := (pages ?r 1)\<lparr>
            desc := desc (pages ?r 1) - SGX_EPC_PAGE_RECLAIM_FLAGS, list_poison := True\<rparr>)"
    using sgx_drop_epc_page_spec [of 1 ?r, THEN conjunct2, THEN conjunct2, THEN conjunct1]
      nb drop_scenario(4)
    by blast
  have r': "reclaimable (lrus s' None) = []"
    using r drop_scenario(5) by simp
  have ds: "desc (pages s' 1) = {SGX_EPC_PAGE_ENCLAVE}"
    using pg drop_scenario(3) by (auto simp: SGX_EPC_PAGE_RECLAIM_FLAGS_def)
  have po: "list_poison (pages s' 1)"
    using pg by simp
  have nb': "\<not> (SGX_EPC_PAGE_RECLAIMABLE \<in> desc (pages s' 1) \<and>
       SGX_EPC_PAGE_RECLAIM_IN_PROGRESS \<in> desc (pages s' 1))"
    using ds by simp
  have w3: "sgx_drop_epc_page 1 s' = Inl LIST_POISON_DEREFERENCE"
    using sgx_drop_epc_page_spec [of 1 s', THEN conjunct2, THEN conjunct2, THEN conjunct2]
      nb' po
    by blast
  show ?thesis
    using w1 d l r' ds w3 by blast
qed

subsection \<open>The free path when EREMOVE fails\<close>

text \<open>
  C9.  If \<^verbatim>\<open>EREMOVE\<close> fails during \<^verbatim>\<open>sgx_free_epc_page(page)\<close>, the function
  returns with no part of the state changed: the page is not put on its section's
  free list, the free counter is not incremented and the charge-group back-pointer
  is neither released nor cleared.  All that has happened are the calls recorded in
  the trace: the optional warning about reclaim flags, \<^verbatim>\<open>EREMOVE\<close> itself and the
  warning about its return value; no uncharge is among them.
\<close>

theorem sgx_free_epc_page_eremove_failed:
  assumes "ret x (EREMOVE p) (count_list (trace s) (EREMOVE p)) \<noteq> 0"
  shows "sgx_epc_sections (sgx_free_epc_page x p s) = sgx_epc_sections s \<and>
         epc_cg (pages (sgx_free_epc_page x p s) p) = epc_cg (pages s p) \<and>
         (sgx_free_epc_page x p s)\<lparr>trace := trace s\<rparr> = s \<and>
         trace (sgx_free_epc_page x p s) = trace s @
           (if desc (pages s p) \<inter> SGX_EPC_PAGE_RECLAIM_FLAGS \<noteq> {}
            then [WARN ''sgx: reclaim flags set during free''] else []) @
           [EREMOVE p, WARN ''EREMOVE returned'']"
  using assms by (simp add: sgx_free_epc_page_def Let_def call_def emit_def)

theorem sgx_free_epc_page_eremove_failed_witness:
  "ret s1_ext (EREMOVE 5) (count_list (trace s1_state) (EREMOVE 5)) \<noteq> 0 \<and>
   sgx_epc_sections (sgx_free_epc_page s1_ext 5 s1_state) = sgx_epc_sections s1_state \<and>
   trace (sgx_free_epc_page s1_ext 5 s1_state) = [EREMOVE 5, WARN ''EREMOVE returned'']"
proof -
  have h: "ret s1_ext (EREMOVE 5) (count_list (trace s1_state) (EREMOVE 5)) \<noteq> 0"
    by (simp add: s1_ext_def s1_state_def zero_state_def)
  show ?thesis
    using h sgx_free_epc_page_eremove_failed [OF h]
    by (simp add: s1_state_def zero_state_def zero_page_def)
qed

subsection \<open>Boot sanitization\<close>

lemma upt_0_2: "[0..<2] = [0, 1]"
  by (simp add: upt_rec)

text \<open>
  C2.  The claim: after the two sanitization rounds of \<^verbatim>\<open>ksgxswapd\<close> every page
  that was on an unsanitized list is on its section's free list, a page on which
  \<^verbatim>\<open>EREMOVE\<close> failed in the first round having been retried in the second.  The
  code at scenario S1: pages 5 and 6, on which the first \<^verbatim>\<open>EREMOVE\<close> fails, are
  moved to the local list \<open>secs_list\<close> of \<^verbatim>\<open>sgx_sanitize_section\<close> and never
  spliced back, so the second round finds the unsanitized list of section 1 empty:
  \<^verbatim>\<open>EREMOVE\<close> is executed once only on page 5 and on page 6, both pages end on no
  list at all, the free list of section 1 is empty although its counter says 2, and
  no warning is raised.
\<close>

theorem ksgxswapd_sanitize_drops_parked_pages:
  "fst (sgx_sanitize_section s1_ext 1 [] s1_state) = [5, 6] \<and>
   page_list (sgx_epc_sections (ksgxswapd_sanitize s1_ext s1_state) 0) = [4, 3, 2, 1] \<and>
   page_list (sgx_epc_sections (ksgxswapd_sanitize s1_ext s1_state) 1) = [] \<and>
   unsanitized_page_list (sgx_epc_sections (ksgxswapd_sanitize s1_ext s1_state) 1) = [] \<and>
   free_cnt (sgx_epc_sections (ksgxswapd_sanitize s1_ext s1_state) 1) = 2 \<and>
   \<not> on_some_list (ksgxswapd_sanitize s1_ext s1_state) 5 \<and>
   \<not> on_some_list (ksgxswapd_sanitize s1_ext s1_state) 6 \<and>
   count_list (trace (ksgxswapd_sanitize s1_ext s1_state)) (EREMOVE 5) = 1 \<and>
   count_list (trace (ksgxswapd_sanitize s1_ext s1_state)) (EREMOVE 6) = 1 \<and>
   WARN ''EPC section has unsanitized pages'' \<notin> set (trace (ksgxswapd_sanitize s1_ext s1_state))"
  by (simp add: ksgxswapd_sanitize_def s1_state_def zero_state_def s1_ext_def call_def
      emit_def Let_def upt_0_2 on_some_list_def sgx_sanitize_section.simps)

subsection \<open>Isolation of pages for reclaim\<close>

lemma isolate_take_props:
  "reclaimable (lrus (isolate_take lru p rest s) lru) = rest"
  "can_get_ref s p \<Longrightarrow> can_get_ref (isolate_take lru p rest s) q = can_get_ref s q"
  "desc (pages (isolate_take lru p rest s) q) =
     (if q = p then insert SGX_EPC_PAGE_RECLAIM_IN_PROGRESS (desc (pages s p)) else desc (pages s q))"
  by (auto simp: isolate_take_def set_reclaimable_def set_desc_def kref_get_unless_zero_def
      can_get_ref_def encl_of_def)

lemma isolate_drop_props:
  "reclaimable (lrus (isolate_drop lru p rest s) lru) = rest"
  "can_get_ref (isolate_drop lru p rest s) q = can_get_ref s q"
  "desc (pages (isolate_drop lru p rest s) q) =
     (if q = p then desc (pages s p) - {SGX_EPC_PAGE_RECLAIMABLE} else desc (pages s q))"
  by (auto simp: isolate_drop_def set_reclaimable_def set_desc_def kref_get_unless_zero_def
      can_get_ref_def encl_of_def)

lemma isolate_unfold_cons:
  "reclaimable (lrus s lru) = p # rest \<Longrightarrow> 0 < n \<Longrightarrow> SGX_EPC_PAGE_ENCLAVE \<in> desc (pages s p) \<Longrightarrow>
   sgx_isolate_epc_pages lru n dst s =
     (if can_get_ref s p then sgx_isolate_epc_pages lru (n - 1) (dst @ [p]) (isolate_take lru p rest s)
      else sgx_isolate_epc_pages lru (n - 1) dst (isolate_drop lru p rest s))"
  by (subst sgx_isolate_epc_pages.simps)
     (simp add: isolate_take_def isolate_drop_def can_get_ref_def kref_get_unless_zero_def)

lemma isolate_unfold_stop:
  "reclaimable (lrus s lru) = [] \<or> n \<le> 0 \<Longrightarrow> sgx_isolate_epc_pages lru n dst s = (n, dst, s)"
  by (subst sgx_isolate_epc_pages.simps) auto

lemma isolate_aux:
  "reclaimable (lrus s lru) = rl \<Longrightarrow>
   \<forall>p\<in>set rl. SGX_EPC_PAGE_ENCLAVE \<in> desc (pages s p) \<Longrightarrow>
   sgx_isolate_epc_pages lru n dst s = (n', dst', s') \<Longrightarrow>
   n' = n - int (min (nat n) (length rl)) \<and>
   reclaimable (lrus s' lru) = drop (min (nat n) (length rl)) rl \<and>
   dst' = dst @ filter (can_get_ref s) (take (min (nat n) (length rl)) rl) \<and>
   (\<forall>q. SGX_EPC_PAGE_RECLAIM_IN_PROGRESS \<in> desc (pages s q) \<longrightarrow>
        SGX_EPC_PAGE_RECLAIM_IN_PROGRESS \<in> desc (pages s' q)) \<and>
   (\<forall>q. SGX_EPC_PAGE_RECLAIMABLE \<notin> desc (pages s q) \<longrightarrow>
        SGX_EPC_PAGE_RECLAIMABLE \<notin> desc (pages s' q)) \<and>
   (\<forall>q\<in>set (take (min (nat n) (length rl)) rl).
        if can_get_ref s q then SGX_EPC_PAGE_RECLAIM_IN_PROGRESS \<in> desc (pages s' q)
        else SGX_EPC_PAGE_RECLAIMABLE \<notin> desc (pages s' q))"
proof (induction rl arbitrary: n dst s)
  case Nil
  then show ?case by (simp add: isolate_unfold_stop)
next
  case (Cons p rest)
  show ?case
  proof (cases "0 < n")
    case False
    with Cons.prems show ?thesis by (simp add: isolate_unfold_stop)
  next
    case True
    then have k: "min (nat n) (length (p # rest)) = Suc (min (nat (n - 1)) (length rest))"
      by (cases "nat n") (auto simp: nat_diff_distrib)
    have enc: "SGX_EPC_PAGE_ENCLAVE \<in> desc (pages s p)" using Cons.prems(2) by simp
    show ?thesis
    proof (cases "can_get_ref s p")
      case get: True
      let ?s1 = "isolate_take lru p rest s"
      have r: "sgx_isolate_epc_pages lru (n - 1) (dst @ [p]) ?s1 = (n', dst', s')"
        using Cons.prems True enc get by (simp add: isolate_unfold_cons)
      have e1: "\<forall>q\<in>set rest. SGX_EPC_PAGE_ENCLAVE \<in> desc (pages ?s1 q)"
        using Cons.prems(2) by (simp add: isolate_take_props)
      have cg: "can_get_ref ?s1 = can_get_ref s"
        using get by (simp add: fun_eq_iff isolate_take_props)
      note ih = Cons.IH [OF isolate_take_props(1) e1 r, unfolded cg]
      have m1: "\<And>q. SGX_EPC_PAGE_RECLAIM_IN_PROGRESS \<in> desc (pages s q) \<Longrightarrow>
          SGX_EPC_PAGE_RECLAIM_IN_PROGRESS \<in> desc (pages ?s1 q)"
        and m2: "\<And>q. SGX_EPC_PAGE_RECLAIMABLE \<notin> desc (pages s q) \<Longrightarrow>
          SGX_EPC_PAGE_RECLAIMABLE \<notin> desc (pages ?s1 q)"
        and m3: "SGX_EPC_PAGE_RECLAIM_IN_PROGRESS \<in> desc (pages ?s1 p)"
        by (auto simp: isolate_take_props)
      have c1: "n' = n - int (Suc (min (nat (n - 1)) (length rest)))"
        and c2: "reclaimable (lrus s' lru) = drop (Suc (min (nat (n - 1)) (length rest))) (p # rest)"
        and c3: "dst' = dst @ filter (can_get_ref s) (take (Suc (min (nat (n - 1)) (length rest))) (p # rest))"
        using ih get by simp_all
      have c4: "\<forall>q. SGX_EPC_PAGE_RECLAIM_IN_PROGRESS \<in> desc (pages s q) \<longrightarrow>
          SGX_EPC_PAGE_RECLAIM_IN_PROGRESS \<in> desc (pages s' q)"
        and c5: "\<forall>q. SGX_EPC_PAGE_RECLAIMABLE \<notin> desc (pages s q) \<longrightarrow>
          SGX_EPC_PAGE_RECLAIMABLE \<notin> desc (pages s' q)"
        using ih m1 m2 by blast+
      have c6: "\<forall>q\<in>set (take (Suc (min (nat (n - 1)) (length rest))) (p # rest)).
          if can_get_ref s q then SGX_EPC_PAGE_RECLAIM_IN_PROGRESS \<in> desc (pages s' q)
          else SGX_EPC_PAGE_RECLAIMABLE \<notin> desc (pages s' q)"
        using ih m3 get by auto
      show ?thesis unfolding k using c1 c2 c3 c4 c5 c6 by blast
    next
      case noget: False
      let ?s1 = "isolate_drop lru p rest s"
      have r: "sgx_isolate_epc_pages lru (n - 1) dst ?s1 = (n', dst', s')"
        using Cons.prems True enc noget by (simp add: isolate_unfold_cons)
      have e1: "\<forall>q\<in>set rest. SGX_EPC_PAGE_ENCLAVE \<in> desc (pages ?s1 q)"
        using Cons.prems(2) by (simp add: isolate_drop_props)
      have cg: "can_get_ref ?s1 = can_get_ref s"
        by (simp add: fun_eq_iff isolate_drop_props)
      note ih = Cons.IH [OF isolate_drop_props(1) e1 r, unfolded cg]
      have m1: "\<And>q. SGX_EPC_PAGE_RECLAIM_IN_PROGRESS \<in> desc (pages s q) \<Longrightarrow>
          SGX_EPC_PAGE_RECLAIM_IN_PROGRESS \<in> desc (pages ?s1 q)"
        and m2: "\<And>q. SGX_EPC_PAGE_RECLAIMABLE \<notin> desc (pages s q) \<Longrightarrow>
          SGX_EPC_PAGE_RECLAIMABLE \<notin> desc (pages ?s1 q)"
        and m3: "SGX_EPC_PAGE_RECLAIMABLE \<notin> desc (pages ?s1 p)"
        by (auto simp: isolate_drop_props)
      have c1: "n' = n - int (Suc (min (nat (n - 1)) (length rest)))"
        and c2: "reclaimable (lrus s' lru) = drop (Suc (min (nat (n - 1)) (length rest))) (p # rest)"
        and c3: "dst' = dst @ filter (can_get_ref s) (take (Suc (min (nat (n - 1)) (length rest))) (p # rest))"
        using ih noget by simp_all
      have c4: "\<forall>q. SGX_EPC_PAGE_RECLAIM_IN_PROGRESS \<in> desc (pages s q) \<longrightarrow>
          SGX_EPC_PAGE_RECLAIM_IN_PROGRESS \<in> desc (pages s' q)"
        and c5: "\<forall>q. SGX_EPC_PAGE_RECLAIMABLE \<notin> desc (pages s q) \<longrightarrow>
          SGX_EPC_PAGE_RECLAIMABLE \<notin> desc (pages s' q)"
        using ih m1 m2 by blast+
      have c6: "\<forall>q\<in>set (take (Suc (min (nat (n - 1)) (length rest))) (p # rest)).
          if can_get_ref s q then SGX_EPC_PAGE_RECLAIM_IN_PROGRESS \<in> desc (pages s' q)
          else SGX_EPC_PAGE_RECLAIMABLE \<notin> desc (pages s' q)"
        using ih m3 noget by auto
      show ?thesis unfolding k using c1 c2 c3 c4 c5 c6 by blast
    qed
  qed
qed

text \<open>
  C4, as the code has it.  If every page on the reclaimable list carries the
  \<^verbatim>\<open>ENCLAVE\<close> flag, \<^verbatim>\<open>sgx_isolate_epc_pages(lru, want, dst)\<close> takes the first
  \<open>k = min want (length of the list)\<close> candidates off the head of the list.  Those
  whose enclave's reference count can be incremented are appended to \<open>dst\<close>, in order,
  with \<^verbatim>\<open>RECLAIM_IN_PROGRESS\<close> set, so at most \<open>want\<close> pages are moved; the others
  are deleted from the list with \<^verbatim>\<open>RECLAIMABLE\<close> cleared.  The counter \<open>want\<close> is
  decremented by \<open>k\<close>, the number of candidates examined, moved or dropped alike.
\<close>

theorem sgx_isolate_epc_pages_spec:
  assumes "\<forall>p\<in>set (reclaimable (lrus s lru)). SGX_EPC_PAGE_ENCLAVE \<in> desc (pages s p)"
    and "sgx_isolate_epc_pages lru n dst s = (n', dst', s')"
    and "k = min (nat n) (length (reclaimable (lrus s lru)))"
  shows "n' = n - int k \<and>
         reclaimable (lrus s' lru) = drop k (reclaimable (lrus s lru)) \<and>
         dst' = dst @ filter (can_get_ref s) (take k (reclaimable (lrus s lru))) \<and>
         length dst' \<le> length dst + nat n \<and>
         (\<forall>q\<in>set (take k (reclaimable (lrus s lru))).
            if can_get_ref s q
            then SGX_EPC_PAGE_RECLAIM_IN_PROGRESS \<in> desc (pages s' q)
            else SGX_EPC_PAGE_RECLAIMABLE \<notin> desc (pages s' q))"
proof -
  note a = isolate_aux [OF refl assms(1) assms(2), folded assms(3)]
  have "length (filter (can_get_ref s) (take k (reclaimable (lrus s lru)))) \<le> k"
    by (rule order_trans [OF length_filter_le]) simp
  moreover have "k \<le> nat n"
    using assms(3) by simp
  ultimately have "length dst' \<le> length dst + nat n"
    using a by simp
  with a show ?thesis by blast
qed

lemma iso_state_result:
  "sgx_isolate_epc_pages None 2 [] iso_state =
     (0, [2], snd (snd (sgx_isolate_epc_pages None 2 [] iso_state)))"
  by (simp add: sgx_isolate_epc_pages.simps iso_state_def zero_state_def zero_page_def
      zero_encl_def kref_get_unless_zero_def encl_of_def set_reclaimable_def set_desc_def)

theorem sgx_isolate_epc_pages_spec_witness:
  "list_all (\<lambda>p. SGX_EPC_PAGE_ENCLAVE \<in> desc (pages iso_state p))
      (reclaimable (lrus iso_state None)) \<and>
   reclaimable (lrus (snd (snd (sgx_isolate_epc_pages None 2 [] iso_state))) None) = [3] \<and>
   SGX_EPC_PAGE_RECLAIM_IN_PROGRESS \<in>
     desc (pages (snd (snd (sgx_isolate_epc_pages None 2 [] iso_state))) 2) \<and>
   SGX_EPC_PAGE_RECLAIMABLE \<notin>
     desc (pages (snd (snd (sgx_isolate_epc_pages None 2 [] iso_state))) 1)"
proof -
  have h1: "\<forall>p\<in>set (reclaimable (lrus iso_state None)).
      SGX_EPC_PAGE_ENCLAVE \<in> desc (pages iso_state p)"
    by (simp add: iso_state_def zero_state_def zero_page_def)
  have h3: "2 = min (nat 2) (length (reclaimable (lrus iso_state None)))"
    by (simp add: iso_state_def zero_state_def)
  have c: "can_get_ref iso_state 2" "\<not> can_get_ref iso_state 1"
    by (simp_all add: can_get_ref_def encl_of_def iso_state_def zero_state_def zero_page_def
        zero_encl_def)
  have l: "reclaimable (lrus iso_state None) = [1, 2, 3]"
    by (simp add: iso_state_def zero_state_def)
  show ?thesis
    using h1 c sgx_isolate_epc_pages_spec [OF h1 iso_state_result h3]
    by (simp add: l list_all_iff)
qed

text \<open>
  C4, as the claim has it: the counter is decremented exactly by the number of pages
  moved to \<open>dst\<close>.  With a request for two pages and the list of pages 1, 2, 3, where
  the enclave of page 1 is vanishing, the counter drops from 2 to 0 while only page 2
  is moved.
\<close>

theorem sgx_isolate_epc_pages_counter_counterexample:
  "fst (sgx_isolate_epc_pages None 2 [] iso_state) = 0 \<and>
   fst (snd (sgx_isolate_epc_pages None 2 [] iso_state)) = [2] \<and>
   2 - fst (sgx_isolate_epc_pages None 2 [] iso_state) \<noteq>
     int (length (fst (snd (sgx_isolate_epc_pages None 2 [] iso_state))) - length ([] :: page_ref list))"
  by (simp add: sgx_isolate_epc_pages.simps iso_state_def zero_state_def zero_page_def
      zero_encl_def kref_get_unless_zero_def encl_of_def set_reclaimable_def set_desc_def)

subsection \<open>OOM victim selection\<close>

lemma get_ref_fail: "\<not> oom_can_get_ref x s p \<Longrightarrow> sgx_oom_get_ref x p s = (False, s)"
  by (simp add: oom_can_get_ref_def sgx_oom_get_ref_def kref_get_unless_zero_def split: if_splits)

lemma get_ref_ok: "oom_can_get_ref x s p \<Longrightarrow> fst (sgx_oom_get_ref x p s)"
  by (simp add: oom_can_get_ref_def sgx_oom_get_ref_def kref_get_unless_zero_def split: if_splits)

lemma can_get_set_unreclaimable [simp]:
  "oom_can_get_ref x (set_unreclaimable lru l s) p = oom_can_get_ref x s p"
  by (simp add: oom_can_get_ref_def set_unreclaimable_def encl_of_def)

lemma set_unreclaimable_twice [simp]:
  "set_unreclaimable lru l (set_unreclaimable lru l' s) = set_unreclaimable lru l s"
  by (simp add: set_unreclaimable_def)

lemma set_unreclaimable_same:
  "unreclaimable (lrus s lru) = l \<Longrightarrow> set_unreclaimable lru l s = s"
  by (auto simp: set_unreclaimable_def)

lemma oom_scan_none:
  "\<forall>p\<in>set l. \<not> oom_can_get_ref x s p \<Longrightarrow> l \<noteq> [] \<Longrightarrow>
   oom_scan x lru l s = (None, set_unreclaimable lru [] s)"
proof (induction l arbitrary: s)
  case Nil then show ?case by simp
next
  case (Cons p rest)
  have f: "sgx_oom_get_ref x p (set_unreclaimable lru rest s) = (False, set_unreclaimable lru rest s)"
    using Cons.prems by (simp add: get_ref_fail)
  show ?case
  proof (cases "rest = []")
    case True
    then show ?thesis using f by simp
  next
    case False
    have "oom_scan x lru rest (set_unreclaimable lru rest s) =
           (None, set_unreclaimable lru [] (set_unreclaimable lru rest s))"
      using Cons.prems False by (intro Cons.IH) simp_all
    then show ?thesis using f by simp
  qed
qed

lemma oom_scan_some:
  "\<forall>q\<in>set pre. \<not> oom_can_get_ref x s q \<Longrightarrow> oom_can_get_ref x s p \<Longrightarrow>
   oom_scan x lru (pre @ p # rest) s =
     (Some p, snd (sgx_oom_get_ref x p (set_unreclaimable lru rest s)))"
proof (induction pre arbitrary: s)
  case Nil
  then show ?case by (simp add: get_ref_ok)
next
  case (Cons a pre)
  have f: "sgx_oom_get_ref x a (set_unreclaimable lru (pre @ p # rest) s) =
      (False, set_unreclaimable lru (pre @ p # rest) s)"
    using Cons.prems by (simp add: get_ref_fail)
  have "oom_scan x lru (pre @ p # rest) (set_unreclaimable lru (pre @ p # rest) s) =
      (Some p, snd (sgx_oom_get_ref x p (set_unreclaimable lru rest (set_unreclaimable lru (pre @ p # rest) s))))"
    using Cons.prems by (intro Cons.IH) simp_all
  then show ?case using f by simp
qed

lemma get_ref_lists:
  "lrus (snd (sgx_oom_get_ref x p s)) = lrus s"
  "sgx_epc_sections (snd (sgx_oom_get_ref x p s)) = sgx_epc_sections s"
  by (simp_all add: sgx_oom_get_ref_def kref_get_unless_zero_def)


text \<open>
  C10.  \<^verbatim>\<open>sgx_oom_get_victim\<close> unlinks every page it scans, and a page whose owner
  reference cannot be acquired is not put back: when the unreclaimable list is
  \<open>pre @ p # rest\<close>, no reference can be acquired for the pages of \<open>pre\<close> and one can
  for \<open>p\<close>, the victim is \<open>p\<close>, the unreclaimable list is left as \<open>rest\<close>, and every
  other list of the state is as before.  When no reference can be acquired for any
  page of the list, \<^verbatim>\<open>sgx_epc_oom\<close> returns false, the unreclaimable list is empty and
  nothing else has changed.
\<close>

theorem sgx_oom_get_victim_unlinks:
  "((\<forall>q\<in>set (unreclaimable (lrus s lru)). \<not> oom_can_get_ref x s q) \<longrightarrow>
      sgx_epc_oom x lru s = Inr (False, set_unreclaimable lru [] s) \<and>
      unreclaimable (lrus (set_unreclaimable lru [] s) lru) = []) \<and>
   (unreclaimable (lrus s lru) = pre @ p # rest \<and>
    (\<forall>q\<in>set pre. \<not> oom_can_get_ref x s q) \<and> oom_can_get_ref x s p \<longrightarrow>
      fst (sgx_oom_get_victim x lru s) = Some p \<and>
      unreclaimable (lrus (snd (sgx_oom_get_victim x lru s)) lru) = rest \<and>
      reclaimable (lrus (snd (sgx_oom_get_victim x lru s)) lru) = reclaimable (lrus s lru) \<and>
      (\<forall>c. c \<noteq> lru \<longrightarrow> lrus (snd (sgx_oom_get_victim x lru s)) c = lrus s c) \<and>
      sgx_epc_sections (snd (sgx_oom_get_victim x lru s)) = sgx_epc_sections s)"
proof (intro conjI impI)
  assume a: "\<forall>q\<in>set (unreclaimable (lrus s lru)). \<not> oom_can_get_ref x s q"
  show "sgx_epc_oom x lru s = Inr (False, set_unreclaimable lru [] s)"
  proof (cases "unreclaimable (lrus s lru) = []")
    case True
    then show ?thesis
      by (simp add: sgx_epc_oom_def sgx_oom_get_victim_def set_unreclaimable_same)
  next
    case False
    then show ?thesis
      using oom_scan_none [OF a False]
      by (simp add: sgx_epc_oom_def sgx_oom_get_victim_def)
  qed
  show "unreclaimable (lrus (set_unreclaimable lru [] s) lru) = []"
    by (simp add: set_unreclaimable_def)
next
  assume b: "unreclaimable (lrus s lru) = pre @ p # rest \<and>
    (\<forall>q\<in>set pre. \<not> oom_can_get_ref x s q) \<and> oom_can_get_ref x s p"
  then have v: "sgx_oom_get_victim x lru s =
      (Some p, snd (sgx_oom_get_ref x p (set_unreclaimable lru rest s)))"
    using oom_scan_some [of pre x s p lru rest] by (simp add: sgx_oom_get_victim_def)
  show "fst (sgx_oom_get_victim x lru s) = Some p"
    by (simp add: v)
  show "unreclaimable (lrus (snd (sgx_oom_get_victim x lru s)) lru) = rest"
    by (simp add: v get_ref_lists) (simp add: set_unreclaimable_def)
  show "reclaimable (lrus (snd (sgx_oom_get_victim x lru s)) lru) = reclaimable (lrus s lru)"
    by (simp add: v get_ref_lists) (simp add: set_unreclaimable_def)
  show "\<forall>c. c \<noteq> lru \<longrightarrow> lrus (snd (sgx_oom_get_victim x lru s)) c = lrus s c"
    by (simp add: v get_ref_lists) (simp add: set_unreclaimable_def)
  show "sgx_epc_sections (snd (sgx_oom_get_victim x lru s)) = sgx_epc_sections s"
    by (simp add: v get_ref_lists) (simp add: set_unreclaimable_def)
qed

theorem sgx_oom_get_victim_unlinks_witness:
  "list_all (\<lambda>q. \<not> oom_can_get_ref s1_ext (sgx_record_epc_page 1 {SGX_EPC_PAGE_ENCLAVE} zero_state) q)
      (unreclaimable (lrus (sgx_record_epc_page 1 {SGX_EPC_PAGE_ENCLAVE} zero_state) None)) \<and>
   sgx_epc_oom s1_ext None (sgx_record_epc_page 1 {SGX_EPC_PAGE_ENCLAVE} zero_state) =
     Inr (False, set_unreclaimable None [] (sgx_record_epc_page 1 {SGX_EPC_PAGE_ENCLAVE} zero_state)) \<and>
   unreclaimable (lrus (oom_state []) None) = [] @ 7 # [] \<and>
   oom_can_get_ref s1_ext (oom_state []) 7 \<and>
   fst (sgx_oom_get_victim s1_ext None (oom_state [])) = Some 7 \<and>
   unreclaimable (lrus (snd (sgx_oom_get_victim s1_ext None (oom_state []))) None) = []"
proof -
  have h1: "\<forall>q\<in>set (unreclaimable (lrus (sgx_record_epc_page 1 {SGX_EPC_PAGE_ENCLAVE} zero_state) None)).
      \<not> oom_can_get_ref s1_ext (sgx_record_epc_page 1 {SGX_EPC_PAGE_ENCLAVE} zero_state) q"
    by (simp add: sgx_record_epc_page_def list_add_tail_node_def Let_def sgx_lru_def zero_state_def zero_page_def
        lru_add_tail_unreclaimable_def SGX_EPC_PAGE_RECLAIM_FLAGS_def set_desc_def
        oom_can_get_ref_def encl_of_def zero_encl_def)
  have h2: "unreclaimable (lrus (oom_state []) None) = [] @ 7 # [] \<and>
      (\<forall>q\<in>set []. \<not> oom_can_get_ref s1_ext (oom_state []) q) \<and>
      oom_can_get_ref s1_ext (oom_state []) 7"
    by (simp add: oom_state_def zero_state_def zero_page_def zero_encl_def oom_can_get_ref_def)
  show ?thesis
    using h1 h2
      sgx_oom_get_victim_unlinks [of "sgx_record_epc_page 1 {SGX_EPC_PAGE_ENCLAVE} zero_state"
        None s1_ext "[]" 1 "[]"]
      sgx_oom_get_victim_unlinks [of "oom_state []" None s1_ext "[]" 7 "[]"]
    unfolding list_all_iff by blast
qed

subsection \<open>Killing the enclave of the victim\<close>

text \<open>
  C8.  The claim: for a version-array victim whose enclave is created and neither
  dead nor OOM, \<^verbatim>\<open>sgx_epc_oom\<close> returns true after the PTEs of every mapping have
  been zapped and the enclave destroyed.  The code in scenario S5, when the area that
  maps the enclave is followed by exactly one more area in the list of the address
  space: the inner loop of \<^verbatim>\<open>sgx_epc_oom_zap\<close> stops at that area, the range is
  zapped, and the header of the \<^verbatim>\<open>for\<close> loop then steps to \<open>vm_next\<close>, which is
  \<^verbatim>\<open>NULL\<close>, and reads \<open>tmp->vm_start\<close>.  The function does not return and the
  enclave is not destroyed.  With no area or with two areas after the enclave's, the
  same call returns true with the range zapped and the enclave destroyed.
\<close>

theorem sgx_epc_oom_zap_null_dereference:
  "sgx_epc_oom s1_ext None (oom_state [encl_vma, other_vma 0x7000]) =
     Inl NULL_POINTER_DEREFERENCE \<and>
   (case sgx_epc_oom s1_ext None (oom_state [encl_vma]) of
      Inl f \<Rightarrow> False
    | Inr (b, s') \<Rightarrow> b \<and> trace s' = [ZAP_PAGE_RANGE 1 0x1000 0x1000, ENCL_DESTROY 3]) \<and>
   (case sgx_epc_oom s1_ext None (oom_state [encl_vma, other_vma 0x7000, other_vma 0x9000]) of
      Inl f \<Rightarrow> False
    | Inr (b, s') \<Rightarrow> b \<and> trace s' = [ZAP_PAGE_RANGE 1 0x1000 0x1000, ENCL_DESTROY 3])"
  apply (simp add: sgx_epc_oom_def)
  apply (simp add: sgx_oom_get_victim_def sgx_oom_get_ref_def oom_state_def zero_state_def
      zero_page_def zero_encl_def set_unreclaimable_def kref_get_unless_zero_def)
  apply (simp add: s1_ext_def encl_vma_def other_vma_def sgx_oom_encl_def
      SGX_ENCL_DEAD_OR_OOM_def mmget_not_zero_def mmput_async_def sgx_epc_oom_zap_def
      kref_put_def emit_def Let_def)
  done

subsection \<open>Writeback and the NOT_TRACKED escalation\<close>

lemma mm_get_put:
  "mm_users (mms s m) \<noteq> 0 \<Longrightarrow>
   mmput_async m ((snd (mmget_not_zero m s))\<lparr>encls := E\<rparr>) = s\<lparr>encls := E\<rparr>"
  by (simp add: mmget_not_zero_def mmput_async_def Let_def)

lemma live_cpus_mms: "mms s' = mms s \<Longrightarrow> live_cpus x tr s' ms = live_cpus x tr s ms"
  by (induction ms) simp_all

lemma live_cpus_update [simp]:
  "live_cpus x tr (s\<lparr>encls := E\<rparr>) ms = live_cpus x tr s ms"
  "live_cpus x tr (s\<lparr>encl_pages := P\<rparr>) ms = live_cpus x tr s ms"
  "live_cpus x tr (s\<lparr>trace := T\<rparr>) ms = live_cpus x tr s ms"
  by (rule live_cpus_mms, simp)+

lemma ewb_cpumask_mms_eq:
  "ewb_cpumask_mms x e ms s =
     set_cpumask e (cpumask (encls s e) \<union> live_cpus x (trace s) s ms) s"
proof (induction ms arbitrary: s)
  case Nil
  then show ?case by (simp add: set_cpumask_def)
next
  case (Cons m ms)
  show ?case
  proof (cases "mm_users (mms s m) = 0")
    case True
    then show ?thesis
      by (simp add: mmget_not_zero_def Cons.IH)
  next
    case False
    have l: "live_cpus x (trace s) s (m # ms) =
        mm_cpumask x m (trace s) \<union> live_cpus x (trace s) s ms"
      using False by simp
    have lc: "\<And>c tr. live_cpus x tr (set_cpumask e c s) ms = live_cpus x tr s ms"
      by (simp add: set_cpumask_def)
    have g: "fst (mmget_not_zero m s)" "encls (snd (mmget_not_zero m s)) = encls s"
      "trace (snd (mmget_not_zero m s)) = trace s"
      using False by (simp_all add: mmget_not_zero_def)
    have "ewb_cpumask_mms x e (m # ms) s =
        ewb_cpumask_mms x e ms
          (set_cpumask e (cpumask (encls s e) \<union> mm_cpumask x m (trace s)) s)"
      using False by (simp add: Let_def g mm_get_put set_cpumask_def)
    also have "\<dots> = set_cpumask e (cpumask (encls s e) \<union> live_cpus x (trace s) s (m # ms)) s"
      using False by (simp add: Cons.IH lc) (simp add: set_cpumask_def Un_assoc)
    finally show ?thesis .
  qed
qed

lemma sgx_encl_ewb_cpumask_eq:
  "sgx_encl_ewb_cpumask x e s =
     (live_cpus x (trace s) s (mm_list (encls s e)),
      set_cpumask e (live_cpus x (trace s) s (mm_list (encls s e))) s)"
proof -
  have lc: "\<And>c ms tr. live_cpus x tr (set_cpumask e c s) ms = live_cpus x tr s ms"
    by (simp add: set_cpumask_def)
  have "s\<lparr>encls := (encls s)(e := (encls s e)\<lparr>cpumask := {}\<rparr>)\<rparr> = set_cpumask e {} s"
    by (simp add: set_cpumask_def)
  then show ?thesis
    by (simp add: sgx_encl_ewb_cpumask_def Let_def ewb_cpumask_mms_eq lc)
       (simp add: set_cpumask_def)
qed

lemma alloc_free_va_slot:
  "sgx_free_va_slot (snd (sgx_alloc_va_slot v)) (fst (sgx_alloc_va_slot v)) = v"
proof -
  let ?i = "length (takeWhile (\<lambda>b. b) (slots v))"
  have "?i < length (slots v) \<Longrightarrow> \<not> slots v ! ?i"
    using nth_length_takeWhile [of "\<lambda>b. b" "slots v"] by simp
  then have "(slots v)[?i := False] = slots v"
    by (cases "?i < length (slots v)") (simp_all add: list_update_same_conv list_update_beyond)
  then show ?thesis
    by (simp add: sgx_free_va_slot_def sgx_alloc_va_slot_def Let_def)
qed


lemma alloc_va_epc [simp]: "va_epc_page (snd (sgx_alloc_va_slot v)) = va_epc_page v"
  by (simp add: sgx_alloc_va_slot_def Let_def)

lemma ewb_finish_trace:
  "trace (ewb_finish x ep e full vp vps off r s) = trace s @ ewb_warn x r"
  by (simp add: ewb_finish_def ewb_warn_def Let_def set_va_pages_def emit_def)

lemma ewb_finish_fail:
  "r \<noteq> 0 \<Longrightarrow> va_pages (encls (ewb_finish x ep e full vp vps off r s) e) =
     (if full then vps @ [sgx_free_va_slot vp off] else sgx_free_va_slot vp off # vps)"
  "r \<noteq> 0 \<Longrightarrow> encl_pages (ewb_finish x ep e full vp vps off r s) = encl_pages s"
  by (simp_all add: ewb_finish_def Let_def set_va_pages_def emit_def)

lemma ewb_finish_ok:
  "va_offset (encl_pages (ewb_finish x ep e full vp vps off 0 s) ep) =
     va_offset (encl_pages s ep) OR off"
  "va_page (encl_pages (ewb_finish x ep e full vp vps off 0 s) ep) = Some (va_epc_page vp)"
  "encls (ewb_finish x ep e full vp vps off 0 s) = encls s"
  by (simp_all add: ewb_finish_def)

lemma trace_set_cpumask [simp]: "trace (set_cpumask e c s) = trace s"
  by (simp add: set_cpumask_def)

lemma ewb_returns:
  assumes "va_pages (encls s (encl_of s p)) = v # vps"
    and "secs_epc_page (encls s (encl_of s p)) = Some secs"
  shows "\<exists>s'. sgx_encl_ewb x p s = Inr s'"
  using assms
  by (simp add: sgx_encl_ewb_def Let_def encl_of_def uu_sgx_encl_ewb_def call_def emit_def
      set_va_pages_def sgx_encl_ewb_cpumask_eq set_cpumask_def)

lemma ewb_trace:
  assumes "va_pages (encls s (encl_of s p)) = v # vps"
    and "secs_epc_page (encls s (encl_of s p)) = Some secs"
    and "w = EWB p (va_epc_page v) (fst (sgx_alloc_va_slot v))"
    and "k = count_list (trace s) w"
    and "r1 = ret x w k" and "r2 = ret x w (k + 1)" and "r3 = ret x w (k + 2)"
    and "t = ret x (ETRACK secs) (count_list (trace s) (ETRACK secs))"
    and "sgx_encl_ewb x p s = Inr s'"
  shows "trace s' = trace s @
     (if r1 \<noteq> SGX_NOT_TRACKED then w # ewb_warn x r1
      else [w, ETRACK secs] @ etrack_warn x t @
        (if r2 \<noteq> SGX_NOT_TRACKED then w # ewb_warn x r2
         else [w, ON_EACH_CPU_MASK
                 (live_cpus x (trace s @ [w, ETRACK secs] @ etrack_warn x t @ [w]) s
                    (mm_list (encls s (encl_of s p)))), w] @
              ewb_warn x r3))"
  using assms
  by (auto simp: sgx_encl_ewb_def Let_def encl_of_def uu_sgx_encl_ewb_def call_def emit_def
      set_va_pages_def sgx_encl_ewb_cpumask_eq ewb_finish_trace etrack_warn_def
      split: if_splits)

lemma ewb_slot:
  assumes "va_pages (encls s (encl_of s p)) = v # vps"
    and "secs_epc_page (encls s (encl_of s p)) = Some secs"
    and "w = EWB p (va_epc_page v) (fst (sgx_alloc_va_slot v))"
    and "k = count_list (trace s) w"
    and "r1 = ret x w k" and "r2 = ret x w (k + 1)" and "r3 = ret x w (k + 2)"
    and "fr = (if r1 \<noteq> SGX_NOT_TRACKED then r1 else if r2 \<noteq> SGX_NOT_TRACKED then r2 else r3)"
    and "sgx_encl_ewb x p s = Inr s'"
  shows "fr \<noteq> 0 \<Longrightarrow> va_pages (encls s' (encl_of s p)) =
           (if sgx_va_page_full (snd (sgx_alloc_va_slot v)) then vps @ [v] else v # vps)"
    and "fr \<noteq> 0 \<Longrightarrow> va_offset (encl_pages s' (owner (pages s p))) =
           va_offset (encl_pages s (owner (pages s p)))"
    and "fr = 0 \<Longrightarrow> va_offset (encl_pages s' (owner (pages s p))) =
          va_offset (encl_pages s (owner (pages s p))) OR fst (sgx_alloc_va_slot v)"
    and "fr = 0 \<Longrightarrow> va_page (encl_pages s' (owner (pages s p))) = Some (va_epc_page v)"
    and "fr = 0 \<Longrightarrow> va_pages (encls s' (encl_of s p)) =
           (if sgx_va_page_full (snd (sgx_alloc_va_slot v))
            then vps @ [snd (sgx_alloc_va_slot v)] else snd (sgx_alloc_va_slot v) # vps)"
  using assms
  by (auto simp: sgx_encl_ewb_def Let_def encl_of_def uu_sgx_encl_ewb_def call_def emit_def
      set_va_pages_def sgx_encl_ewb_cpumask_eq ewb_finish_fail ewb_finish_ok alloc_free_va_slot
      set_cpumask_def SGX_NOT_TRACKED_def
      split: if_splits)

text \<open>
  C5.  A page goes through \<^verbatim>\<open>sgx_encl_ewb\<close>; its enclave has a version page \<open>v\<close> and
  the SECS page \<open>secs\<close>.  \<open>r1\<close>, \<open>r2\<close>, \<open>r3\<close> are the answers of the first, second
  and third \<^verbatim>\<open>EWB\<close> on the page.  The function returns, and the calls it has made
  are: one \<^verbatim>\<open>EWB\<close> if \<open>r1\<close> is not \<^verbatim>\<open>NOT_TRACKED\<close>; otherwise \<^verbatim>\<open>EWB\<close>, one
  \<^verbatim>\<open>ETRACK\<close> on the SECS page and a second \<^verbatim>\<open>EWB\<close>; and if \<open>r2\<close> is again
  \<^verbatim>\<open>NOT_TRACKED\<close>, one broadcast and a third and last \<^verbatim>\<open>EWB\<close>.  The broadcast goes
  to the union of the CPU sets of the enclave's address spaces in use, each set as a
  read gives it after \<^verbatim>\<open>ETRACK\<close> and the second \<^verbatim>\<open>EWB\<close> have been executed, not as
  it was when the function was entered.  So \<^verbatim>\<open>ETRACK\<close> is called at most once and at
  most one broadcast is made.  If the last answer \<open>fr\<close> is a failure
  (\<^verbatim>\<open>NOT_TRACKED\<close> or any other), the slot is released: the version pages have the
  slots they had before the call and the offset bits of the enclave page are as
  before.  If it is 0 the offset of the slot is or-ed into the offset bits of the
  enclave page, which records the version page.
\<close>

theorem sgx_encl_ewb_escalation:
  assumes "va_pages (encls s (encl_of s p)) = v # vps"
    and "secs_epc_page (encls s (encl_of s p)) = Some secs"
    and "w = EWB p (va_epc_page v) (fst (sgx_alloc_va_slot v))"
    and "k = count_list (trace s) w"
    and "r1 = ret x w k" and "r2 = ret x w (k + 1)" and "r3 = ret x w (k + 2)"
    and "t = ret x (ETRACK secs) (count_list (trace s) (ETRACK secs))"
    and "fr = (if r1 \<noteq> SGX_NOT_TRACKED then r1 else if r2 \<noteq> SGX_NOT_TRACKED then r2 else r3)"
  shows "\<exists>s'. sgx_encl_ewb x p s = Inr s' \<and>
     trace s' = trace s @
       (if r1 \<noteq> SGX_NOT_TRACKED then w # ewb_warn x r1
        else [w, ETRACK secs] @ etrack_warn x t @
          (if r2 \<noteq> SGX_NOT_TRACKED then w # ewb_warn x r2
           else [w, ON_EACH_CPU_MASK
                 (live_cpus x (trace s @ [w, ETRACK secs] @ etrack_warn x t @ [w]) s
                    (mm_list (encls s (encl_of s p)))), w] @
                ewb_warn x r3)) \<and>
     length (filter is_etrack (drop (length (trace s)) (trace s'))) \<le> 1 \<and>
     length (filter is_ipi (drop (length (trace s)) (trace s'))) \<le> 1 \<and>
     (fr \<noteq> 0 \<longrightarrow>
        va_pages (encls s' (encl_of s p)) =
          (if sgx_va_page_full (snd (sgx_alloc_va_slot v)) then vps @ [v] else v # vps) \<and>
        va_offset (encl_pages s' (owner (pages s p))) =
          va_offset (encl_pages s (owner (pages s p)))) \<and>
     (fr = 0 \<longrightarrow>
        va_offset (encl_pages s' (owner (pages s p))) =
          va_offset (encl_pages s (owner (pages s p))) OR fst (sgx_alloc_va_slot v) \<and>
        va_page (encl_pages s' (owner (pages s p))) = Some (va_epc_page v))"
proof -
  obtain s' where s': "sgx_encl_ewb x p s = Inr s'"
    using ewb_returns [OF assms(1) assms(2)] by blast
  note tr = ewb_trace [OF assms(1-8) s']
  note sl = ewb_slot [OF assms(1-7) assms(9) s']
  have c1: "length (filter is_etrack (drop (length (trace s)) (trace s'))) \<le> 1"
    by (simp add: tr assms(3) ewb_warn_def etrack_warn_def)
  have c2: "length (filter is_ipi (drop (length (trace s)) (trace s'))) \<le> 1"
    by (simp add: tr assms(3) ewb_warn_def etrack_warn_def)
  show ?thesis
    using s' tr c1 c2 sl(1-4) by blast
qed

theorem sgx_encl_ewb_escalation_witness:
  "va_pages (encls s3_state (encl_of s3_state 2)) = \<lparr>va_epc_page = 9, slots = [False, False]\<rparr> # [] \<and>
   secs_epc_page (encls s3_state (encl_of s3_state 2)) = Some 8 \<and>
   live_cpus s3_ext [] s3_state [4, 5, 6] = {0, 2, 3} \<and>
   (\<exists>s'. sgx_encl_ewb s3_ext 2 s3_state = Inr s' \<and>
      trace s' = [EWB 2 9 0, ETRACK 8, EWB 2 9 0, ON_EACH_CPU_MASK {0, 2, 3, 5}, EWB 2 9 0] \<and>
      va_offset (encl_pages s' 2) = 0 \<and> va_page (encl_pages s' 2) = Some 9)"
proof -
  have h1: "va_pages (encls s3_state (encl_of s3_state 2)) =
      \<lparr>va_epc_page = 9, slots = [False, False]\<rparr> # []"
    by (simp add: s3_state_def zero_state_def zero_page_def zero_encl_def encl_of_def)
  have h2: "secs_epc_page (encls s3_state (encl_of s3_state 2)) = Some 8"
    by (simp add: s3_state_def zero_state_def zero_page_def zero_encl_def encl_of_def)
  have e: "encl_of s3_state 2 = 1" "owner (pages s3_state 2) = 2" "trace s3_state = []"
    "mm_list (encls s3_state (Suc 0)) = [4, 5, 6]"
    "va_offset (encl_pages s3_state 2) = 0"
    by (auto simp: s3_state_def zero_state_def zero_page_def zero_encl_def encl_of_def)
  have l: "live_cpus s3_ext [EWB 2 9 0, ETRACK 8, EWB 2 9 0] s3_state [4, 5, 6] = {0, 2, 3, 5}"
    "live_cpus s3_ext [] s3_state [4, 5, 6] = {0, 2, 3}"
    by (auto simp: s3_state_def s3_ext_def zero_state_def)
  have a: "sgx_alloc_va_slot \<lparr>va_epc_page = 9, slots = [False, False]\<rparr> =
      (0, \<lparr>va_epc_page = 9, slots = [True, False]\<rparr>)"
    by (simp add: sgx_alloc_va_slot_def)
  have r: "ret s3_ext (EWB 2 9 0) 0 = 11" "ret s3_ext (EWB 2 9 0) (Suc 0) = 11"
    "ret s3_ext (EWB 2 9 0) (Suc (Suc 0)) = 0" "ret s3_ext (ETRACK 8) 0 = 0"
    by (simp_all add: s3_ext_def)
  show ?thesis
    using h1 h2 l(2) sgx_encl_ewb_escalation [OF h1 h2 refl refl refl refl refl refl refl, of s3_ext]
    by (auto simp: e a r l(1) SGX_NOT_TRACKED_def ewb_warn_def etrack_warn_def
        simp del: live_cpus.simps)
qed

subsection \<open>The reclaimer\<close>

lemma core_eqD:
  assumes "core s' = core s"
  shows "pages s' = pages s" "lrus s' = lrus s" "sgx_epc_sections s' = sgx_epc_sections s"
    "refcount (encls s' e) = refcount (encls s e)"
    "secs_epc_page (encls s' e) = secs_epc_page (encls s e)"
    "encl (encl_pages s' ep) = encl (encl_pages s ep)"
  using assms by (auto simp: core_def dest: fun_cong)

lemma core_emit [simp]: "core (emit ev s) = core s"
  by (simp add: core_def emit_def)

lemma core_call [simp]: "core (snd (call x ev s)) = core s"
  by (simp add: call_def)

lemma core_mmget [simp]: "core (snd (mmget_not_zero m s)) = core s"
  by (simp add: mmget_not_zero_def core_def)

lemma core_mmput [simp]: "core (mmput_async m s) = core s"
  by (simp add: mmput_async_def Let_def) (simp add: core_def)

lemma core_age_mms [simp]: "core (snd (age_mms x ep e ms r s)) = core s"
  by (induction ms arbitrary: r s) (simp_all add: Let_def)

lemma core_age [simp]: "core (snd (sgx_reclaimer_age x p s)) = core s"
  by (simp add: sgx_reclaimer_age_def Let_def)

lemma core_block_mms [simp]: "core (block_mms x e addr ms s) = core s"
  by (induction ms arbitrary: s) (simp_all add: Let_def split: option.splits)

lemma core_block [simp]: "core (sgx_reclaimer_block x p s) = core s"
  by (simp add: sgx_reclaimer_block_def Let_def)

lemma core_reclaim_block [simp]: "core (reclaim_block x ps s) = core s"
  by (induction ps arbitrary: s) simp_all

lemma core_set_cpumask [simp]: "core (set_cpumask e c s) = core s"
  by (auto simp: set_cpumask_def core_def fun_eq_iff)

lemma core_set_va_pages [simp]: "core (set_va_pages e l s) = core s"
  by (auto simp: set_va_pages_def core_def fun_eq_iff)

lemma core_ewb_finish [simp]: "core (ewb_finish x ep e full vp vps off r s) = core s"
  by (simp add: ewb_finish_def Let_def) (auto simp: core_def fun_eq_iff)

lemma core_reclaimed [simp]:
  "core (s\<lparr>encl_pages := (encl_pages s)(ep := (encl_pages s ep)\<lparr>reclaimed := b\<rparr>)\<rparr>) = core s"
  by (auto simp: core_def fun_eq_iff)

lemma core_ewb: "sgx_encl_ewb x p s = Inr s' \<Longrightarrow> core s' = core s"
  by (auto simp: sgx_encl_ewb_def Let_def uu_sgx_encl_ewb_def sgx_encl_ewb_cpumask_eq
      split: list.splits option.splits if_splits)

lemma frame_refl [simp]: "frame s s"
  by (simp add: frame_def)

lemma frame_trans: "frame s s' \<Longrightarrow> frame s' s'' \<Longrightarrow> frame s s''"
  unfolding frame_def by (intro conjI allI impI) (simp_all, blast)

lemma core_preds:
  assumes "core s' = core s"
  shows "is_secs s' = is_secs s" "secs_wf s' = secs_wf s" "free_cnt_ok s' = free_cnt_ok s"
    "encl_of s' = encl_of s" "held s' = held s" "sgx_lru s' = sgx_lru s" "frame s s'"
    "frame s' t = frame s t"
  using core_eqD [OF assms]
  by (simp_all add: is_secs_def secs_wf_def free_cnt_ok_def encl_of_def held_def sgx_lru_def
      frame_def fun_eq_iff)

lemma kref_put_core:
  "pages (kref_put e s) = pages s" "lrus (kref_put e s) = lrus s"
  "sgx_epc_sections (kref_put e s) = sgx_epc_sections s"
  "encl_pages (kref_put e s) = encl_pages s"
  "secs_epc_page (encls (kref_put e s) e') = secs_epc_page (encls s e')"
  "refcount (encls (kref_put e s) e') =
     (if e' = e then refcount (encls s e) - 1 else refcount (encls s e'))"
  by (simp_all add: kref_put_def Let_def emit_def)

lemma reclaim_skip_props:
  "pages (reclaim_skip p s) =
     (pages s)(p := (pages s p)\<lparr>desc := desc (pages s p) - {SGX_EPC_PAGE_RECLAIM_IN_PROGRESS}\<rparr>)"
  "lrus (reclaim_skip p s) =
     (lrus s)(sgx_lru s p := (lrus s (sgx_lru s p))
        \<lparr>reclaimable := reclaimable (lrus s (sgx_lru s p)) @ [p]\<rparr>)"
  "sgx_epc_sections (reclaim_skip p s) = sgx_epc_sections s"
  "encl_pages (reclaim_skip p s) = encl_pages s"
  "secs_epc_page (encls (reclaim_skip p s) e') = secs_epc_page (encls s e')"
  "refcount (encls (reclaim_skip p s) e') =
     (if e' = encl_of s p then refcount (encls s e') - 1 else refcount (encls s e'))"
  by (simp_all add: reclaim_skip_def Let_def kref_put_core lru_add_tail_reclaimable_def
      set_desc_def sgx_lru_def)

lemma reclaim_release_props:
  "pages (reclaim_release p i s) =
     (pages s)(p := (pages s p)\<lparr>desc := desc (pages s p) - SGX_EPC_PAGE_RECLAIM_FLAGS,
                                epc_cg := None\<rparr>)"
  "lrus (reclaim_release p i s) = lrus s"
  "sgx_epc_sections (reclaim_release p i s) =
     (sgx_epc_sections s)(section_idx (pages s p) :=
        (sgx_epc_sections s (section_idx (pages s p)))
          \<lparr>page_list := page_list (sgx_epc_sections s (section_idx (pages s p))) @ [p],
           free_cnt := free_cnt (sgx_epc_sections s (section_idx (pages s p))) + 1\<rparr>)"
  "encl_pages (reclaim_release p i s) = encl_pages s"
  "secs_epc_page (encls (reclaim_release p i s) e') = secs_epc_page (encls s e')"
  "refcount (encls (reclaim_release p i s) e') =
     (if e' = encl_of s p then refcount (encls s e') - 1 else refcount (encls s e'))"
  by (auto simp: reclaim_release_def Let_def kref_put_core set_desc_def emit_def encl_of_def
      fun_eq_iff split: option.splits)

lemma drop_props:
  assumes "\<forall>k. q \<notin> set (page_list (sgx_epc_sections s k)) \<and>
               q \<notin> set (unsanitized_page_list (sgx_epc_sections s k))"
    and "\<forall>c. q \<notin> set (reclaimable (lrus s c))"
    and "sgx_drop_epc_page q s = Inr d"
  shows "sgx_epc_sections (snd d) = sgx_epc_sections s"
    and "reclaimable (lrus (snd d) c) = reclaimable (lrus s c)"
    and "owner (pages (snd d) p) = owner (pages s p)"
    and "section_idx (pages (snd d) p) = section_idx (pages s p)"
    and "desc (pages (snd d) p) \<subseteq> desc (pages s p)"
    and "encls (snd d) = encls s"
    and "encl_pages (snd d) = encl_pages s"
  using assms
  by (auto simp: sgx_drop_epc_page_def Let_def list_del_def set_desc_def fun_eq_iff
      split: if_splits)

lemma free_props:
  "lrus (sgx_free_epc_page x q s) = lrus s"
  "encls (sgx_free_epc_page x q s) = encls s"
  "encl_pages (sgx_free_epc_page x q s) = encl_pages s"
  "owner (pages (sgx_free_epc_page x q s) p) = owner (pages s p)"
  "section_idx (pages (sgx_free_epc_page x q s) p) = section_idx (pages s p)"
  "desc (pages (sgx_free_epc_page x q s) p) = desc (pages s p)"
  "sgx_epc_sections (sgx_free_epc_page x q s) = sgx_epc_sections s \<or>
   sgx_epc_sections (sgx_free_epc_page x q s) =
     (sgx_epc_sections s)(section_idx (pages s q) :=
        (sgx_epc_sections s (section_idx (pages s q)))
          \<lparr>page_list := page_list (sgx_epc_sections s (section_idx (pages s q))) @ [q],
           free_cnt := free_cnt (sgx_epc_sections s (section_idx (pages s q))) + 1\<rparr>)"
  by (auto simp: sgx_free_epc_page_def uu_sgx_free_epc_page_def list_add_tail_node_def Let_def call_def emit_def
      split: option.splits)

lemma secs_wf_notin:
  assumes "secs_wf s" "secs_epc_page (encls s e) = Some q"
  shows "\<forall>k. q \<notin> set (page_list (sgx_epc_sections s k)) \<and>
             q \<notin> set (unsanitized_page_list (sgx_epc_sections s k))"
    and "\<forall>c. q \<notin> set (reclaimable (lrus s c))"
  using assms unfolding secs_wf_def is_secs_def by blast+

lemma drop_free_step:
  assumes wf: "secs_wf s" and q: "secs_epc_page (encls s e) = Some q"
    and dr: "sgx_drop_epc_page q s = Inr dd"
    and s': "s' = set_secs_epc_page e None (sgx_free_epc_page x q (snd dd))"
  shows "secs_wf s'" and "frame s s'"
    and "\<forall>e'. refcount (encls s' e') = refcount (encls s e')"
    and "free_cnt_ok s \<longrightarrow> free_cnt_ok s'"
proof -
  let ?d = "snd dd"
  let ?f = "sgx_free_epc_page x q ?d"
  note n = secs_wf_notin [OF wf q]
  note d = drop_props [OF n dr]
  note f = free_props [of x q ?d]
  have pg: "\<And>p. owner (pages s' p) = owner (pages s p) \<and>
          section_idx (pages s' p) = section_idx (pages s p) \<and>
          desc (pages s' p) \<subseteq> desc (pages s p)"
    by (simp add: s' set_secs_epc_page_def f d)
  have lr: "\<And>c. reclaimable (lrus s' c) = reclaimable (lrus s c)"
    by (simp add: s' set_secs_epc_page_def f d)
  have ep: "encl_pages s' = encl_pages s"
    by (simp add: s' set_secs_epc_page_def f d)
  have en: "encls s' = (encls s)(e := (encls s e)\<lparr>secs_epc_page := None\<rparr>)"
    by (simp add: s' set_secs_epc_page_def f d)
  have sc: "sgx_epc_sections s' = sgx_epc_sections s \<or>
     sgx_epc_sections s' =
     (sgx_epc_sections s)(section_idx (pages s q) :=
        (sgx_epc_sections s (section_idx (pages s q)))
          \<lparr>page_list := page_list (sgx_epc_sections s (section_idx (pages s q))) @ [q],
           free_cnt := free_cnt (sgx_epc_sections s (section_idx (pages s q))) + 1\<rparr>)"
    using f(7) by (simp add: s' set_secs_epc_page_def d)
  have pl: "\<And>k. set (page_list (sgx_epc_sections s' k)) \<subseteq>
               insert q (set (page_list (sgx_epc_sections s k)))"
    and un: "\<And>k. unsanitized_page_list (sgx_epc_sections s' k) =
               unsanitized_page_list (sgx_epc_sections s k)"
    and mono: "\<And>k p. p \<in> set (page_list (sgx_epc_sections s k)) \<Longrightarrow>
               p \<in> set (page_list (sgx_epc_sections s' k))"
    using sc by (auto split: if_splits)
  have se: "\<And>e' q'. secs_epc_page (encls s' e') = Some q' \<Longrightarrow>
      secs_epc_page (encls s e') = Some q' \<and> e' \<noteq> e"
    by (auto simp: en split: if_splits)
  show "frame s s'"
    unfolding frame_def using pg lr ep se mono by auto
  show "\<forall>e'. refcount (encls s' e') = refcount (encls s e')"
    by (simp add: en)
  show "free_cnt_ok s \<longrightarrow> free_cnt_ok s'"
    using sc unfolding free_cnt_ok_def by auto
  show "secs_wf s'"
    unfolding secs_wf_def is_secs_def
  proof (intro conjI allI impI)
    fix q' k assume "\<exists>e'. secs_epc_page (encls s' e') = Some q'"
    then obtain e' where e': "secs_epc_page (encls s e') = Some q'" "e' \<noteq> e"
      using se by blast
    then have ne: "q' \<noteq> q"
      using wf q unfolding secs_wf_def by blast
    note n' = secs_wf_notin [OF wf e'(1)]
    show "q' \<notin> set (page_list (sgx_epc_sections s' k))"
      using pl [of k] n'(1) ne by auto
    show "q' \<notin> set (unsanitized_page_list (sgx_epc_sections s' k))"
      using un n'(1) by simp
  next
    fix q' c assume "\<exists>e'. secs_epc_page (encls s' e') = Some q'"
    then obtain e' where e': "secs_epc_page (encls s e') = Some q'"
      using se by blast
    show "q' \<notin> set (reclaimable (lrus s' c))"
      using secs_wf_notin(2) [OF wf e'] lr by simp
  next
    fix e1 e2 q' assume "secs_epc_page (encls s' e1) = Some q'" "secs_epc_page (encls s' e2) = Some q'"
    then show "e1 = e2"
      using se wf unfolding secs_wf_def by blast
  qed
qed

lemma write_secs_step:
  assumes wf: "secs_wf s" and r: "write_secs x e s = Inr s'"
  shows "secs_wf s'" and "frame s s'"
    and "\<forall>e'. refcount (encls s' e') = refcount (encls s e')"
    and "free_cnt_ok s \<longrightarrow> free_cnt_ok s'"
proof -
  have "secs_wf s' \<and> frame s s' \<and> (\<forall>e'. refcount (encls s' e') = refcount (encls s e')) \<and>
        (free_cnt_ok s \<longrightarrow> free_cnt_ok s')"
  proof (cases "SGX_ENCL_DEAD \<in> encl_flags (encls s e)")
    case True
    with r obtain q dd where q: "secs_epc_page (encls s e) = Some q"
      and dr: "sgx_drop_epc_page q s = Inr dd"
      and s': "s' = set_secs_epc_page e None (sgx_free_epc_page x q (snd dd))"
      by (auto simp: write_secs_def split: option.splits sum.splits)
    from drop_free_step [OF wf q dr s'] show ?thesis by blast
  next
    case nd: False
    show ?thesis
    proof (cases "SGX_ENCL_INITIALIZED \<in> encl_flags (encls s e)")
      case False
      with nd r have "s' = s" by (simp add: write_secs_def)
      with wf show ?thesis by simp
    next
      case True
      let ?b = "call x (ENCL_GET_BACKING e (unat (drop_bit 12 (encl_size (encls s e))))) s"
      have cb: "core (snd ?b) = core s" by simp
      show ?thesis
      proof (cases "fst ?b \<noteq> 0")
        case True
        with nd \<open>SGX_ENCL_INITIALIZED \<in> encl_flags (encls s e)\<close> r have "s' = snd ?b"
          by (simp add: write_secs_def Let_def)
        with wf core_preds [OF cb] core_eqD [OF cb] show ?thesis by simp
      next
        case False
        with nd \<open>SGX_ENCL_INITIALIZED \<in> encl_flags (encls s e)\<close> r
        obtain q s1 dd s2 where q: "secs_epc_page (encls (snd ?b) e) = Some q"
          and w: "sgx_encl_ewb x q (snd ?b) = Inr s1"
          and dr: "sgx_drop_epc_page q s1 = Inr dd"
          and s2: "s2 = set_secs_epc_page e None (sgx_free_epc_page x q (snd dd))"
          and s': "s' = emit (ENCL_PUT_BACKING None) s2"
          by (auto simp: write_secs_def Let_def split: option.splits sum.splits)
        have c1: "core s1 = core s"
          using core_ewb [OF w] cb by simp
        have wf1: "secs_wf s1" using wf core_preds(2) [OF c1] by simp
        have q1: "secs_epc_page (encls s1 e) = Some q"
          using q core_eqD(5) [OF c1] core_eqD(5) [OF cb] by simp
        note st = drop_free_step [OF wf1 q1 dr s2]
        have c2: "core s' = core s2" by (simp add: s')
        have f1: "frame s s2" using st(2) core_preds(8) [OF c1] by simp
        have f2: "frame s2 s'" using core_preds(7) [OF c2] .
        have a1: "frame s s'" by (rule frame_trans [OF f1 f2])
        have a2: "secs_wf s'" using st(1) core_preds(2) [OF c2] by simp
        have a3: "\<forall>e'. refcount (encls s' e') = refcount (encls s e')"
          using st(3) core_eqD(4) [OF c1] core_eqD(4) [OF c2] by simp
        have a4: "free_cnt_ok s \<longrightarrow> free_cnt_ok s'"
          using st(4) core_preds(3) [OF c1] core_preds(3) [OF c2] by simp
        show ?thesis
          using a1 a2 a3 a4 by blast
      qed
    qed
  qed
  then show "secs_wf s'" and "frame s s'"
    and "\<forall>e'. refcount (encls s' e') = refcount (encls s e')"
    and "free_cnt_ok s \<longrightarrow> free_cnt_ok s'"
    by blast+
qed

lemma frame_preds:
  assumes "frame s s'"
  shows "encl_of s' = encl_of s" "held s' = held s" "\<And>q. is_secs s' q \<Longrightarrow> is_secs s q"
proof -
  show "encl_of s' = encl_of s" "held s' = held s"
    using assms by (auto simp: frame_def encl_of_def held_def fun_eq_iff)
  show "\<And>q. is_secs s' q \<Longrightarrow> is_secs s q"
    using assms unfolding frame_def is_secs_def by blast
qed

lemma write_tail_step:
  assumes wf: "secs_wf s1" and r: "write_tail x ep e s1 = Inr s'"
  shows "secs_wf s'" and "frame s1 s'"
    and "\<forall>e'. refcount (encls s' e') = refcount (encls s1 e')"
    and "free_cnt_ok s1 \<longrightarrow> free_cnt_ok s'"
proof -
  define s2 where "s2 = s1\<lparr>encl_pages := (encl_pages s1)(ep := (encl_pages s1 ep)\<lparr>epc_page := None\<rparr>)\<rparr>"
  define s3 where "s3 = s2\<lparr>encls := (encls s2)(e := (encls s2 e)
                  \<lparr>secs_child_cnt := secs_child_cnt (encls s2 e) - 1\<rparr>)\<rparr>"
  have u: "write_tail x ep e s1 =
      (if secs_child_cnt (encls s3 e) = 0 then write_secs x e s3 else Inr s3)"
    by (simp only: write_tail_def Let_def s2_def s3_def)
  have c3: "core s3 = core s1"
    by (auto simp: s3_def s2_def core_def fun_eq_iff)
  have wf3: "secs_wf s3" using wf core_preds(2) [OF c3] by simp
  have "secs_wf s' \<and> frame s3 s' \<and> (\<forall>e'. refcount (encls s' e') = refcount (encls s3 e')) \<and>
        (free_cnt_ok s3 \<longrightarrow> free_cnt_ok s')"
  proof (cases "secs_child_cnt (encls s3 e) = 0")
    case True
    with r u have "write_secs x e s3 = Inr s'" by simp
    from write_secs_step [OF wf3 this] show ?thesis by blast
  next
    case False
    with r u have "s' = s3" by simp
    with wf3 show ?thesis by simp
  qed
  then show "secs_wf s'" and "frame s1 s'"
    and "\<forall>e'. refcount (encls s' e') = refcount (encls s1 e')"
    and "free_cnt_ok s1 \<longrightarrow> free_cnt_ok s'"
    using core_preds(8) [OF c3] core_preds(3) [OF c3] core_eqD(4) [OF c3] by simp_all
qed

lemma reclaimer_write_step:
  assumes wf: "secs_wf s" and r: "sgx_reclaimer_write x p s = Inr s'"
  shows "secs_wf s'" and "frame s s'"
    and "\<forall>e'. refcount (encls s' e') = refcount (encls s e')"
    and "free_cnt_ok s \<longrightarrow> free_cnt_ok s'"
proof -
  obtain s1 where c1: "core s1 = core s"
    and r1: "write_tail x (owner (pages s p)) (encl (encl_pages s (owner (pages s p)))) s1 = Inr s'"
  proof (cases "SGX_ENCL_DEAD \<in> encl_flags (encls s (encl (encl_pages s (owner (pages s p)))))")
    case True
    let ?r = "call x (EREMOVE p) s"
    let ?s1 = "if fst ?r \<noteq> 0 then emit (ENCLS_WARN ''EREMOVE'') (snd ?r) else snd ?r"
    have "core ?s1 = core s" by simp
    moreover from r True
    have "write_tail x (owner (pages s p)) (encl (encl_pages s (owner (pages s p)))) ?s1 = Inr s'"
      by (simp add: sgx_reclaimer_write_def Let_def)
    ultimately show ?thesis using that by blast
  next
    case False
    with r obtain s1 where w: "sgx_encl_ewb x p s = Inr s1"
      by (auto simp: sgx_reclaimer_write_def Let_def split: sum.splits)
    have "core s1 = core s" by (rule core_ewb [OF w])
    moreover from r False w
    have "write_tail x (owner (pages s p)) (encl (encl_pages s (owner (pages s p)))) s1 = Inr s'"
      by (simp add: sgx_reclaimer_write_def Let_def)
    ultimately show ?thesis using that by blast
  qed
  have wf1: "secs_wf s1" using wf core_preds(2) [OF c1] by simp
  note t = write_tail_step [OF wf1 r1]
  show "secs_wf s'" by (rule t(1))
  show "frame s s'" using t(2) core_preds(8) [OF c1] by simp
  show "\<forall>e'. refcount (encls s' e') = refcount (encls s e')"
    using t(3) core_eqD(4) [OF c1] by simp
  show "free_cnt_ok s \<longrightarrow> free_cnt_ok s'"
    using t(4) core_preds(3) [OF c1] by simp
qed

lemma release_step:
  assumes wf: "secs_wf s" and np: "\<not> is_secs s p"
  shows "secs_wf (reclaim_release p i s)" and "frame s (reclaim_release p i s)"
    and "free_cnt_ok s \<longrightarrow> free_cnt_ok (reclaim_release p i s)"
    and "p \<in> set (page_list (sgx_epc_sections (reclaim_release p i s) (section_idx (pages s p))))"
    and "desc (pages (reclaim_release p i s) p) \<inter> SGX_EPC_PAGE_RECLAIM_FLAGS = {}"
proof -
  note rp = reclaim_release_props [of p i s]
  show "frame s (reclaim_release p i s)"
    unfolding frame_def by (auto simp: rp)
  show "free_cnt_ok s \<longrightarrow> free_cnt_ok (reclaim_release p i s)"
    unfolding free_cnt_ok_def by (auto simp: rp)
  show "p \<in> set (page_list (sgx_epc_sections (reclaim_release p i s) (section_idx (pages s p))))"
    by (simp add: rp)
  show "desc (pages (reclaim_release p i s) p) \<inter> SGX_EPC_PAGE_RECLAIM_FLAGS = {}"
    by (auto simp: rp)
  show "secs_wf (reclaim_release p i s)"
    using wf np unfolding secs_wf_def is_secs_def
    by (auto simp: rp split: if_splits)
qed

lemma held_Cons: "held s (p # ps) e = (if encl_of s p = e then Suc (held s ps e) else held s ps e)"
  by (simp add: held_def)

lemma reclaim_write_spec:
  assumes "reclaim_write x ps i s = Inr (i', s')"
    and "secs_wf s"
    and "\<forall>p\<in>set ps. \<not> is_secs s p"
    and "\<forall>e. held s ps e \<le> refcount (encls s e)"
  shows "i' = i + length ps \<and> secs_wf s' \<and> frame s s' \<and>
         (free_cnt_ok s \<longrightarrow> free_cnt_ok s') \<and>
         (\<forall>e. refcount (encls s' e) = refcount (encls s e) - held s ps e) \<and>
         (\<forall>p\<in>set ps. p \<in> set (page_list (sgx_epc_sections s' (section_idx (pages s p)))) \<and>
                      desc (pages s' p) \<inter> SGX_EPC_PAGE_RECLAIM_FLAGS = {})"
  using assms
proof (induction ps arbitrary: i s)
  case Nil
  then show ?case by (simp add: held_def)
next
  case (Cons p ps)
  from Cons.prems(1) obtain s1 where w: "sgx_reclaimer_write x p s = Inr s1"
    and rest: "reclaim_write x ps (i + 1) (reclaim_release p i s1) = Inr (i', s')"
    by (auto split: sum.splits)
  let ?s2 = "reclaim_release p i s1"
  note ws = reclaimer_write_step [OF Cons.prems(2) w]
  have np1: "\<not> is_secs s1 p"
    using Cons.prems(3) frame_preds(3) [OF ws(2)] by auto
  note rs = release_step [OF ws(1) np1, of i]
  have f02: "frame s ?s2" by (rule frame_trans [OF ws(2) rs(2)])
  have ns2: "\<forall>p'\<in>set ps. \<not> is_secs ?s2 p'"
    using Cons.prems(3) frame_preds(3) [OF f02] by auto
  have eo1: "encl_of s1 = encl_of s" by (rule frame_preds(1) [OF ws(2)])
  have h2: "held ?s2 = held s" by (rule frame_preds(2) [OF f02])
  have rc2: "\<And>e. refcount (encls ?s2 e) =
      (if e = encl_of s p then refcount (encls s e) - 1 else refcount (encls s e))"
    using ws(3) by (simp add: reclaim_release_props eo1)
  have hr2: "\<forall>e. held ?s2 ps e \<le> refcount (encls ?s2 e)"
  proof
    fix e
    have "held s (p # ps) e \<le> refcount (encls s e)" using Cons.prems(4) by blast
    then show "held ?s2 ps e \<le> refcount (encls ?s2 e)"
      by (simp add: h2 rc2 held_Cons split: if_splits)
  qed
  note ih = Cons.IH [OF rest rs(1) ns2 hr2]
  have a1: "i' = i + length (p # ps)" using ih by simp
  have a2: "secs_wf s'" using ih by blast
  have f2s: "frame ?s2 s'" using ih by blast
  have a3: "frame s s'" by (rule frame_trans [OF f02 f2s])
  have a4: "free_cnt_ok s \<longrightarrow> free_cnt_ok s'" using ih ws(4) rs(3) by blast
  have a5: "\<forall>e. refcount (encls s' e) = refcount (encls s e) - held s (p # ps) e"
  proof
    fix e
    have "refcount (encls s' e) = refcount (encls ?s2 e) - held ?s2 ps e" using ih by blast
    then show "refcount (encls s' e) = refcount (encls s e) - held s (p # ps) e"
      by (simp add: h2 rc2 held_Cons)
  qed
  have si1: "\<And>q. section_idx (pages s1 q) = section_idx (pages s q)"
    using ws(2) by (simp add: frame_def)
  have si2: "\<And>q. section_idx (pages ?s2 q) = section_idx (pages s q)"
    using f02 by (simp add: frame_def)
  have a6: "\<forall>q\<in>set (p # ps). q \<in> set (page_list (sgx_epc_sections s' (section_idx (pages s q)))) \<and>
                      desc (pages s' q) \<inter> SGX_EPC_PAGE_RECLAIM_FLAGS = {}"
  proof
    fix q assume q: "q \<in> set (p # ps)"
    show "q \<in> set (page_list (sgx_epc_sections s' (section_idx (pages s q)))) \<and>
          desc (pages s' q) \<inter> SGX_EPC_PAGE_RECLAIM_FLAGS = {}"
    proof (cases "q \<in> set ps")
      case True
      then show ?thesis using ih si2 by simp
    next
      case False
      with q have qp: "q = p" by simp
      have "p \<in> set (page_list (sgx_epc_sections ?s2 (section_idx (pages s p))))"
        using rs(4) si1 by simp
      then have m: "p \<in> set (page_list (sgx_epc_sections s' (section_idx (pages s p))))"
        using f2s unfolding frame_def by blast
      have "desc (pages s' p) \<subseteq> desc (pages ?s2 p)"
        using f2s unfolding frame_def by blast
      with rs(5) have "desc (pages s' p) \<inter> SGX_EPC_PAGE_RECLAIM_FLAGS = {}" by blast
      with m qp show ?thesis by simp
    qed
  qed
  show ?case using a1 a2 a3 a4 a5 a6 by blast
qed

lemma iso_rel_refl: "iso_rel lru s [] s"
  by (simp add: iso_rel_def held_def)

lemma iso_rel_warn: "iso_rel lru (emit ev s) moved s' \<Longrightarrow> iso_rel lru s moved s'"
  by (simp add: iso_rel_def emit_def held_def encl_of_def)

lemma iso_rel_take:
  assumes "reclaimable (lrus s lru) = p # rest" "fst (kref_get_unless_zero (encl_of s p) s)"
    and "iso_rel lru (isolate_take lru p rest s) moved s'"
  shows "iso_rel lru s (p # moved) s'"
proof -
  let ?s1 = "isolate_take lru p rest s"
  have nz: "refcount (encls s (encl_of s p)) \<noteq> 0"
    using assms(2) by (simp add: kref_get_unless_zero_def split: if_splits)
  have p1: "reclaimable (lrus ?s1 lru) = rest"
    "\<And>c. c \<noteq> lru \<Longrightarrow> lrus ?s1 c = lrus s c"
    "sgx_epc_sections ?s1 = sgx_epc_sections s" "encl_pages ?s1 = encl_pages s"
    "\<And>e. secs_epc_page (encls ?s1 e) = secs_epc_page (encls s e)"
    "\<And>q. owner (pages ?s1 q) = owner (pages s q)"
    "\<And>q. section_idx (pages ?s1 q) = section_idx (pages s q)"
    "\<And>q. epc_cg (pages ?s1 q) = epc_cg (pages s q)"
    "\<And>e. refcount (encls ?s1 e) = (if e = encl_of s p then Suc (refcount (encls s e)) else refcount (encls s e))"
    using nz
    by (auto simp: isolate_take_def set_reclaimable_def set_desc_def kref_get_unless_zero_def)
  have eo: "encl_of ?s1 = encl_of s"
    by (simp add: encl_of_def fun_eq_iff p1)
  have h: "held ?s1 = held s" by (simp add: held_def eo fun_eq_iff)
  show ?thesis
    using assms(3) unfolding iso_rel_def
    by (simp add: p1 h held_Cons assms(1)) (auto simp: p1)
qed

lemma iso_rel_drop:
  assumes "reclaimable (lrus s lru) = p # rest" "\<not> fst (kref_get_unless_zero (encl_of s p) s)"
    and "iso_rel lru (isolate_drop lru p rest s) moved s'"
  shows "iso_rel lru s moved s'"
proof -
  let ?s1 = "isolate_drop lru p rest s"
  have z: "refcount (encls s (encl_of s p)) = 0"
    using assms(2) by (simp add: kref_get_unless_zero_def split: if_splits)
  have p1: "reclaimable (lrus ?s1 lru) = rest"
    "\<And>c. c \<noteq> lru \<Longrightarrow> lrus ?s1 c = lrus s c"
    "sgx_epc_sections ?s1 = sgx_epc_sections s" "encl_pages ?s1 = encl_pages s"
    "encls ?s1 = encls s"
    "\<And>q. owner (pages ?s1 q) = owner (pages s q)"
    "\<And>q. section_idx (pages ?s1 q) = section_idx (pages s q)"
    "\<And>q. epc_cg (pages ?s1 q) = epc_cg (pages s q)"
    using z
    by (auto simp: isolate_drop_def set_reclaimable_def set_desc_def kref_get_unless_zero_def)
  have eo: "encl_of ?s1 = encl_of s"
    by (simp add: encl_of_def fun_eq_iff p1)
  have h: "held ?s1 = held s" by (simp add: held_def eo fun_eq_iff)
  show ?thesis
    using assms(3) unfolding iso_rel_def
    by (simp add: p1 h assms(1)) (auto simp: p1)
qed

lemma isolate_general:
  "sgx_isolate_epc_pages lru n dst s = (n', dst', s') \<Longrightarrow>
   \<exists>moved. dst' = dst @ moved \<and> length moved \<le> nat n \<and> iso_rel lru s moved s'"
proof (induction lru n dst s arbitrary: n' dst' s' rule: sgx_isolate_epc_pages.induct)
  case (1 lru n dst s)
  show ?case
  proof (cases "0 < n")
    case False
    with "1.prems" have "dst' = dst" "s' = s"
      by (simp_all add: sgx_isolate_epc_pages.simps)
    then show ?thesis using iso_rel_refl by auto
  next
    case pos: True
    show ?thesis
    proof (cases "reclaimable (lrus s lru)")
      case Nil
      with pos "1.prems" have "dst' = dst" "s' = s"
        by (simp_all add: sgx_isolate_epc_pages.simps)
      then show ?thesis using iso_rel_refl by auto
    next
      case (Cons p rest)
      show ?thesis
      proof (cases "SGX_EPC_PAGE_ENCLAVE \<notin> desc (pages s p)")
        case True
        have r: "sgx_isolate_epc_pages lru (n - 1) dst (emit (WARN ''sgx_isolate_epc_pages'') s) = (n', dst', s')"
          using "1.prems" pos Cons True by (subst (asm) sgx_isolate_epc_pages.simps) simp
        from "1.IH"(1) [OF pos Cons True r] obtain moved where
          m: "dst' = dst @ moved" "length moved \<le> nat (n - 1)"
            "iso_rel lru (emit (WARN ''sgx_isolate_epc_pages'') s) moved s'"
          by blast
        have "length moved \<le> nat n" using m(2) by simp
        with m(1) iso_rel_warn [OF m(3)] show ?thesis by blast
      next
        case enc: False
        show ?thesis
        proof (cases "fst (kref_get_unless_zero (encl_of s p) s)")
          case True
          have r: "sgx_isolate_epc_pages lru (n - 1) (dst @ [p])
                 (set_reclaimable lru rest
                    (set_desc p (insert SGX_EPC_PAGE_RECLAIM_IN_PROGRESS (desc (pages s p)))
                       (snd (kref_get_unless_zero (encl_of s p) s)))) = (n', dst', s')"
            using "1.prems" pos Cons enc True by (subst (asm) sgx_isolate_epc_pages.simps) simp
          from "1.IH"(2) [OF pos Cons enc True r] obtain moved where
            m: "dst' = (dst @ [p]) @ moved" "length moved \<le> nat (n - 1)"
              "iso_rel lru (isolate_take lru p rest s) moved s'"
            unfolding isolate_take_def by blast
          have "length (p # moved) \<le> nat n" using m(2) pos by simp
          moreover have "dst' = dst @ p # moved" using m(1) by simp
          ultimately show ?thesis using iso_rel_take [OF Cons True m(3)] by blast
        next
          case False
          have r: "sgx_isolate_epc_pages lru (n - 1) dst
                 (set_reclaimable lru rest
                    (set_desc p (desc (pages s p) - {SGX_EPC_PAGE_RECLAIMABLE})
                       (snd (kref_get_unless_zero (encl_of s p) s)))) = (n', dst', s')"
            using "1.prems" pos Cons enc False by (subst (asm) sgx_isolate_epc_pages.simps) simp
          from "1.IH"(3) [OF pos Cons enc False r] obtain moved where
            m: "dst' = dst @ moved" "length moved \<le> nat (n - 1)"
              "iso_rel lru (isolate_drop lru p rest s) moved s'"
            unfolding isolate_drop_def by blast
          have "length moved \<le> nat n" using m(2) by simp
          with m(1) iso_rel_drop [OF Cons False m(3)] show ?thesis by blast
        qed
      qed
    qed
  qed
qed

lemma scan_rel_nil: "scan_rel s [] [] [] s"
  by (simp add: scan_rel_def held_def)

lemma scan_rel_core:
  "core s1 = core s \<Longrightarrow> scan_rel s1 ps kept skipped s' \<Longrightarrow> scan_rel s ps kept skipped s'"
  using core_eqD [of s1 s] core_preds [of s1 s]
  by (simp add: scan_rel_def)

lemma scan_rel_accept:
  assumes "scan_rel s ps kept skipped s'"
  shows "scan_rel s (p # ps) (p # kept) skipped s'"
  using assms unfolding scan_rel_def
  by (auto simp: held_Cons)

lemma skip_pages:
  "owner (pages (reclaim_skip p s) q) = owner (pages s q)"
  "section_idx (pages (reclaim_skip p s) q) = section_idx (pages s q)"
  "epc_cg (pages (reclaim_skip p s) q) = epc_cg (pages s q)"
  by (simp_all add: reclaim_skip_props)

lemma skip_preds:
  "encl_of (reclaim_skip p s) = encl_of s" "held (reclaim_skip p s) = held s"
  "sgx_lru (reclaim_skip p s) = sgx_lru s"
proof -
  show e: "encl_of (reclaim_skip p s) = encl_of s"
    by (simp add: encl_of_def fun_eq_iff skip_pages reclaim_skip_props(4))
  show "held (reclaim_skip p s) = held s"
    by (simp add: held_def e fun_eq_iff)
  show "sgx_lru (reclaim_skip p s) = sgx_lru s"
    by (simp add: sgx_lru_def fun_eq_iff skip_pages)
qed

lemma scan_rel_skip:
  assumes "scan_rel (reclaim_skip p s) ps kept skipped s'"
    and "held s (p # ps) (encl_of s p) \<le> refcount (encls s (encl_of s p))"
  shows "scan_rel s (p # ps) kept (p # skipped) s'"
proof -
  let ?s1 = "reclaim_skip p s"
  note a = assms(1) [unfolded scan_rel_def skip_preds]
  note rp = reclaim_skip_props [of p s]
  have d: "\<And>q. desc (pages s' q) \<subseteq> desc (pages ?s1 q)" using a by blast
  have d1: "\<And>q. desc (pages ?s1 q) \<subseteq> desc (pages s q)" by (auto simp: rp)
  have rip: "SGX_EPC_PAGE_RECLAIM_IN_PROGRESS \<notin> desc (pages s' p)"
    using d [of p] by (auto simp: rp)
  have c1: "length kept + length (p # skipped) = length (p # ps)" using a by simp
  have c2: "set kept \<union> set (p # skipped) = set (p # ps)" using a by auto
  have c3: "\<forall>e. held s (p # ps) e = held s kept e + held s (p # skipped) e"
    using a by (simp add: held_Cons)
  have c4: "\<forall>q. owner (pages s' q) = owner (pages s q) \<and>
          section_idx (pages s' q) = section_idx (pages s q) \<and>
          epc_cg (pages s' q) = epc_cg (pages s q) \<and>
          desc (pages s' q) \<subseteq> desc (pages s q)"
  proof
    fix q
    have "owner (pages s' q) = owner (pages ?s1 q) \<and>
          section_idx (pages s' q) = section_idx (pages ?s1 q) \<and>
          epc_cg (pages s' q) = epc_cg (pages ?s1 q)" using a by blast
    moreover have "desc (pages s' q) \<subseteq> desc (pages s q)" using d [of q] d1 [of q] by blast
    ultimately show "owner (pages s' q) = owner (pages s q) \<and>
          section_idx (pages s' q) = section_idx (pages s q) \<and>
          epc_cg (pages s' q) = epc_cg (pages s q) \<and>
          desc (pages s' q) \<subseteq> desc (pages s q)"
      by (simp add: skip_pages)
  qed
  have c5: "\<forall>q\<in>set (p # skipped). SGX_EPC_PAGE_RECLAIM_IN_PROGRESS \<notin> desc (pages s' q)"
    using a rip by simp
  have c6: "\<forall>c. reclaimable (lrus s' c) =
      reclaimable (lrus s c) @ filter (\<lambda>q. sgx_lru s q = c) (p # skipped)"
  proof
    fix c
    have "reclaimable (lrus s' c) = reclaimable (lrus ?s1 c) @ filter (\<lambda>q. sgx_lru s q = c) skipped"
      using a by blast
    then show "reclaimable (lrus s' c) =
      reclaimable (lrus s c) @ filter (\<lambda>q. sgx_lru s q = c) (p # skipped)"
      by (simp add: rp)
  qed
  have c7: "sgx_epc_sections s' = sgx_epc_sections s" using a by (simp add: rp)
  have c8: "\<forall>e. secs_epc_page (encls s' e) = secs_epc_page (encls s e)" using a by (simp add: rp)
  have c9: "\<forall>ep. encl (encl_pages s' ep) = encl (encl_pages s ep)" using a by (simp add: rp)
  have c10: "\<forall>e. refcount (encls s' e) = refcount (encls s e) - held s (p # skipped) e"
  proof
    fix e
    have "refcount (encls s' e) = refcount (encls ?s1 e) - held s skipped e" using a by blast
    then show "refcount (encls s' e) = refcount (encls s e) - held s (p # skipped) e"
      by (simp add: rp held_Cons)
  qed
  show ?thesis
    unfolding scan_rel_def using c1 c2 c3 c4 c5 c6 c7 c8 c9 c10 by blast
qed

lemma reclaim_scan_spec:
  "reclaim_scan x ia ps i s = (kept, skipped, i', s') \<Longrightarrow>
   \<forall>e. held s ps e \<le> refcount (encls s e) \<Longrightarrow>
   i' = i + length kept \<and> scan_rel s ps kept skipped s'"
proof (induction ps arbitrary: i s kept skipped i' s')
  case Nil
  then show ?case using scan_rel_nil by simp
next
  case (Cons p ps)
  let ?ep = "owner (pages s p)"
  let ?a = "if i = SGX_MAX_NR_TO_RECLAIM then (False, s)
            else if ia then (True, s) else sgx_reclaimer_age x p s"
  let ?b = "if fst ?a
            then call x (ENCL_GET_BACKING (encl (encl_pages (snd ?a) ?ep)) (SGX_ENCL_PAGE_INDEX x ?ep)) (snd ?a)
            else (0, snd ?a)"
  let ?s1 = "(snd ?b)\<lparr>encl_pages := (encl_pages (snd ?b))
                          (?ep := (encl_pages (snd ?b) ?ep)\<lparr>reclaimed := True\<rparr>)\<rparr>"
  have eq: "reclaim_scan x ia (p # ps) i s =
     (if fst ?a \<and> fst ?b = 0
      then (p # fst (reclaim_scan x ia ps (i + 1) ?s1), snd (reclaim_scan x ia ps (i + 1) ?s1))
      else (fst (reclaim_scan x ia ps i (reclaim_skip p (snd ?b))),
            p # fst (snd (reclaim_scan x ia ps i (reclaim_skip p (snd ?b)))),
            snd (snd (reclaim_scan x ia ps i (reclaim_skip p (snd ?b))))))"
    by (simp only: reclaim_scan.simps Let_def)
  have ca: "core (snd ?a) = core s" by simp
  have cb: "core (snd ?b) = core s" using ca by simp
  show ?case
  proof (cases "fst ?a \<and> fst ?b = 0")
    case True
    have c1: "core ?s1 = core s" using cb by simp
    obtain k sk j t where r: "reclaim_scan x ia ps (i + 1) ?s1 = (k, sk, j, t)"
      by (cases "reclaim_scan x ia ps (i + 1) ?s1") auto
    have "reclaim_scan x ia (p # ps) i s =
        (p # fst (reclaim_scan x ia ps (i + 1) ?s1), snd (reclaim_scan x ia ps (i + 1) ?s1))"
      by (subst eq, rule if_P [OF True])
    then have res: "kept = p # k" "skipped = sk" "i' = j" "s' = t"
      using Cons.prems(1) r by simp_all
    have h: "\<forall>e. held ?s1 ps e \<le> refcount (encls ?s1 e)"
    proof
      fix e
      have "held s (p # ps) e \<le> refcount (encls s e)" using Cons.prems(2) by blast
      then show "held ?s1 ps e \<le> refcount (encls ?s1 e)"
        using core_preds(5) [OF c1] core_eqD(4) [OF c1]
        by (simp add: held_Cons split: if_splits)
    qed
    note ih = Cons.IH [OF r h]
    have "scan_rel s ps k sk t" using scan_rel_core [OF c1] ih by blast
    then have "scan_rel s (p # ps) (p # k) sk t" by (rule scan_rel_accept)
    then show ?thesis using ih res by simp
  next
    case False
    let ?s2 = "reclaim_skip p (snd ?b)"
    obtain k sk j t where r: "reclaim_scan x ia ps i ?s2 = (k, sk, j, t)"
      by (cases "reclaim_scan x ia ps i ?s2") auto
    have "reclaim_scan x ia (p # ps) i s =
        (fst (reclaim_scan x ia ps i ?s2), p # fst (snd (reclaim_scan x ia ps i ?s2)),
         snd (snd (reclaim_scan x ia ps i ?s2)))"
      by (subst eq, rule if_not_P [OF False])
    then have res: "kept = k" "skipped = p # sk" "i' = j" "s' = t"
      using Cons.prems(1) r by simp_all
    have hb: "\<forall>e. held (snd ?b) (p # ps) e \<le> refcount (encls (snd ?b) e)"
      using Cons.prems(2) core_preds(5) [OF cb] core_eqD(4) [OF cb] by simp
    have h: "\<forall>e. held ?s2 ps e \<le> refcount (encls ?s2 e)"
    proof
      fix e
      have "held (snd ?b) (p # ps) e \<le> refcount (encls (snd ?b) e)" using hb by blast
      then show "held ?s2 ps e \<le> refcount (encls ?s2 e)"
        by (simp add: skip_preds reclaim_skip_props held_Cons split: if_splits)
    qed
    note ih = Cons.IH [OF r h]
    have "scan_rel ?s2 ps k sk t" using ih by blast
    then have "scan_rel (snd ?b) (p # ps) k (p # sk) t"
      using hb by (intro scan_rel_skip) auto
    then have "scan_rel s (p # ps) k (p # sk) t" by (rule scan_rel_core [OF cb])
    then show ?thesis using ih res by simp
  qed
qed

lemma iso_rel_preds:
  assumes "iso_rel lru s moved s1"
  shows "encl_of s1 = encl_of s" "held s1 = held s" "sgx_lru s1 = sgx_lru s"
    "is_secs s1 = is_secs s" "secs_wf s \<Longrightarrow> secs_wf s1"
    "free_cnt_ok s1 = free_cnt_ok s"
    "secs_wf s \<Longrightarrow> \<forall>p\<in>set moved. \<not> is_secs s p"
proof -
  note a = assms [unfolded iso_rel_def]
  show e: "encl_of s1 = encl_of s" using a by (simp add: encl_of_def fun_eq_iff)
  show "held s1 = held s" by (simp add: held_def e fun_eq_iff)
  show "sgx_lru s1 = sgx_lru s" using a by (simp add: sgx_lru_def fun_eq_iff)
  show i: "is_secs s1 = is_secs s" using a by (simp add: is_secs_def fun_eq_iff)
  show "free_cnt_ok s1 = free_cnt_ok s" using a by (simp add: free_cnt_ok_def)
  have rl: "\<And>c. set (reclaimable (lrus s1 c)) \<subseteq> set (reclaimable (lrus s c))"
    subgoal for c using a by (cases "c = lru") auto
    done
  show "secs_wf s \<Longrightarrow> secs_wf s1"
    unfolding secs_wf_def i using a rl by (simp add: is_secs_def) blast
  show "secs_wf s \<Longrightarrow> \<forall>p\<in>set moved. \<not> is_secs s p"
    unfolding secs_wf_def using a by blast
qed

lemma scan_rel_preds:
  assumes "scan_rel s1 ps kept skipped s2"
  shows "encl_of s2 = encl_of s1" "held s2 = held s1"
    "is_secs s2 = is_secs s1" "free_cnt_ok s2 = free_cnt_ok s1"
    "secs_wf s1 \<Longrightarrow> \<forall>p\<in>set ps. \<not> is_secs s1 p \<Longrightarrow> secs_wf s2"
proof -
  note a = assms [unfolded scan_rel_def]
  show e: "encl_of s2 = encl_of s1" using a by (simp add: encl_of_def fun_eq_iff)
  show "held s2 = held s1" by (simp add: held_def e fun_eq_iff)
  show i: "is_secs s2 = is_secs s1" using a by (simp add: is_secs_def fun_eq_iff)
  show "free_cnt_ok s2 = free_cnt_ok s1" using a by (simp add: free_cnt_ok_def)
  have sk: "set skipped \<subseteq> set ps" using a by blast
  have rl: "\<And>c. set (reclaimable (lrus s2 c)) \<subseteq> set (reclaimable (lrus s1 c)) \<union> set skipped"
    using a by auto
  show "secs_wf s1 \<Longrightarrow> \<forall>p\<in>set ps. \<not> is_secs s1 p \<Longrightarrow> secs_wf s2"
    unfolding secs_wf_def i using a rl sk by (simp add: is_secs_def) blast
qed

lemma reclaim_all:
  assumes wf: "secs_wf s"
    and r: "sgx_reclaim_epc_pages x n ia s = Inr (cnt, s')"
    and isol: "isol = fst (snd (sgx_isolate_epc_pages None n [] s))"
    and s1: "s1 = snd (snd (sgx_isolate_epc_pages None n [] s))"
    and kept: "kept = fst (reclaim_scan x ia isol 0 s1)"
    and skipped: "skipped = fst (snd (reclaim_scan x ia isol 0 s1))"
  shows "cnt = int (length kept)" and "length kept + length skipped = length isol"
    and "length isol \<le> nat n"
    and "\<forall>p\<in>set kept. p \<in> set (page_list (sgx_epc_sections s' (section_idx (pages s p)))) \<and>
           desc (pages s' p) \<inter> SGX_EPC_PAGE_RECLAIM_FLAGS = {}"
    and "\<forall>c. reclaimable (lrus s' c) =
           reclaimable (lrus s1 c) @ filter (\<lambda>p. sgx_lru s p = c) skipped"
    and "\<forall>p\<in>set skipped. SGX_EPC_PAGE_RECLAIM_IN_PROGRESS \<notin> desc (pages s' p)"
    and "\<forall>e. refcount (encls s' e) = refcount (encls s e)"
    and "free_cnt_ok s \<longrightarrow> free_cnt_ok s'"
    and "secs_wf s'"
proof -
  obtain n1 where i0: "sgx_isolate_epc_pages None n [] s = (n1, isol, s1)"
    using isol s1 by (cases "sgx_isolate_epc_pages None n [] s") auto
  from isolate_general [OF i0] have li: "length isol \<le> nat n" and ir: "iso_rel None s isol s1"
    by auto
  note ip = iso_rel_preds [OF ir]
  note ird = ir [unfolded iso_rel_def]
  obtain i s2 where sc: "reclaim_scan x ia isol 0 s1 = (kept, skipped, i, s2)"
    using kept skipped by (cases "reclaim_scan x ia isol 0 s1") auto
  have h1: "\<forall>e. held s1 isol e \<le> refcount (encls s1 e)"
    using ird by (simp add: ip(2))
  from reclaim_scan_spec [OF sc h1] have sr: "scan_rel s1 isol kept skipped s2" by blast
  note sp = scan_rel_preds [OF sr]
  note srd = sr [unfolded scan_rel_def]
  have wf1: "secs_wf s1" by (rule ip(5) [OF wf])
  have ns1: "\<forall>p\<in>set isol. \<not> is_secs s1 p" using ip(7) [OF wf] ip(4) by simp
  have wf2: "secs_wf s2" by (rule sp(5) [OF wf1 ns1])
  let ?s2 = "reclaim_block x kept s2"
  have cb: "core ?s2 = core s2" by simp
  note cp = core_preds [OF cb]
  note cd = core_eqD [OF cb]
  have wfb: "secs_wf ?s2" using wf2 cp(2) by simp
  have nsb: "\<forall>p\<in>set kept. \<not> is_secs ?s2 p"
    using ns1 srd by (simp add: cp(1) sp(3)) blast
  have rc2: "\<And>e. refcount (encls s2 e) = refcount (encls s e) + held s kept e"
  proof -
    fix e
    have "refcount (encls s2 e) = refcount (encls s1 e) - held s1 skipped e" using srd by blast
    moreover have "refcount (encls s1 e) = refcount (encls s e) + held s isol e" using ird by blast
    moreover have "held s1 isol e = held s1 kept e + held s1 skipped e" using srd by blast
    ultimately show "refcount (encls s2 e) = refcount (encls s e) + held s kept e"
      by (simp add: ip(2))
  qed
  have hb: "\<forall>e. held ?s2 kept e \<le> refcount (encls ?s2 e)"
    by (simp add: cp(5) cd(4) sp(2) ip(2) rc2)
  show "length kept + length skipped = length isol" using srd by blast
  show "length isol \<le> nat n" by (rule li)
  show "cnt = int (length kept)"
    and "\<forall>p\<in>set kept. p \<in> set (page_list (sgx_epc_sections s' (section_idx (pages s p)))) \<and>
           desc (pages s' p) \<inter> SGX_EPC_PAGE_RECLAIM_FLAGS = {}"
    and "\<forall>c. reclaimable (lrus s' c) =
           reclaimable (lrus s1 c) @ filter (\<lambda>p. sgx_lru s p = c) skipped"
    and "\<forall>p\<in>set skipped. SGX_EPC_PAGE_RECLAIM_IN_PROGRESS \<notin> desc (pages s' p)"
    and "\<forall>e. refcount (encls s' e) = refcount (encls s e)"
    and "free_cnt_ok s \<longrightarrow> free_cnt_ok s'"
    and "secs_wf s'"
  proof -
    have "cnt = int (length kept) \<and>
      (\<forall>p\<in>set kept. p \<in> set (page_list (sgx_epc_sections s' (section_idx (pages s p)))) \<and>
           desc (pages s' p) \<inter> SGX_EPC_PAGE_RECLAIM_FLAGS = {}) \<and>
      (\<forall>c. reclaimable (lrus s' c) =
           reclaimable (lrus s1 c) @ filter (\<lambda>p. sgx_lru s p = c) skipped) \<and>
      (\<forall>p\<in>set skipped. SGX_EPC_PAGE_RECLAIM_IN_PROGRESS \<notin> desc (pages s' p)) \<and>
      (\<forall>e. refcount (encls s' e) = refcount (encls s e)) \<and>
      (free_cnt_ok s \<longrightarrow> free_cnt_ok s') \<and> secs_wf s'"
    proof (cases "isol = []")
      case True
      then have k: "kept = []" "skipped = []" "s2 = s1" using sc by simp_all
      from r True have res: "cnt = 0" "s' = emit COND_RESCHED s1"
        using isol s1 by (simp_all add: sgx_reclaim_epc_pages_def Let_def)
      have c: "core s' = core s1" by (simp add: res)
      show ?thesis
        using ird wf1 core_preds [OF c] core_eqD [OF c]
        by (simp add: k res(1) ip held_def True)
    next
      case False
      from r False obtain j s3 where w: "reclaim_write x kept 0 ?s2 = Inr (j, s3)"
        and res: "cnt = int j" "s' = emit COND_RESCHED s3"
        using isol s1 sc
        by (auto simp: sgx_reclaim_epc_pages_def Let_def split: sum.splits)
      note ws = reclaim_write_spec [OF w wfb nsb hb]
      have c: "core s' = core s3" by (simp add: res)
      note c3 = core_eqD [OF c]
      have fr: "frame ?s2 s3" using ws by blast
      note frd = fr [unfolded frame_def]
      have si: "\<And>p. section_idx (pages ?s2 p) = section_idx (pages s p)"
        using srd ird by (simp add: cd(1))
      have a1: "cnt = int (length kept)" using ws res by simp
      have a2: "\<forall>p\<in>set kept. p \<in> set (page_list (sgx_epc_sections s' (section_idx (pages s p)))) \<and>
           desc (pages s' p) \<inter> SGX_EPC_PAGE_RECLAIM_FLAGS = {}"
        using ws by (simp add: c3 si)
      have a3: "\<forall>c. reclaimable (lrus s' c) =
           reclaimable (lrus s1 c) @ filter (\<lambda>p. sgx_lru s p = c) skipped"
        using frd srd by (simp add: c3 cd ip(3))
      have a4: "\<forall>p\<in>set skipped. SGX_EPC_PAGE_RECLAIM_IN_PROGRESS \<notin> desc (pages s' p)"
      proof
        fix p assume p: "p \<in> set skipped"
        have "desc (pages s3 p) \<subseteq> desc (pages ?s2 p)" using frd by blast
        moreover have "SGX_EPC_PAGE_RECLAIM_IN_PROGRESS \<notin> desc (pages s2 p)" using srd p by blast
        ultimately show "SGX_EPC_PAGE_RECLAIM_IN_PROGRESS \<notin> desc (pages s' p)"
          by (auto simp: c3 cd(1))
      qed
      have a5: "\<forall>e. refcount (encls s' e) = refcount (encls s e)"
      proof
        fix e
        have "refcount (encls s3 e) = refcount (encls ?s2 e) - held ?s2 kept e" using ws by blast
        then show "refcount (encls s' e) = refcount (encls s e)"
          by (simp add: c3 cd(4) cp(5) sp(2) ip(2) rc2)
      qed
      have a6: "free_cnt_ok s \<longrightarrow> free_cnt_ok s'"
        using ws by (simp add: core_preds(3) [OF c] cp(3) sp(4) ip(6))
      have a7: "secs_wf s'" using ws by (simp add: core_preds(2) [OF c])
      show ?thesis using a1 a2 a3 a4 a5 a6 a7 by blast
    qed
    then show "cnt = int (length kept)"
      and "\<forall>p\<in>set kept. p \<in> set (page_list (sgx_epc_sections s' (section_idx (pages s p)))) \<and>
           desc (pages s' p) \<inter> SGX_EPC_PAGE_RECLAIM_FLAGS = {}"
      and "\<forall>c. reclaimable (lrus s' c) =
           reclaimable (lrus s1 c) @ filter (\<lambda>p. sgx_lru s p = c) skipped"
      and "\<forall>p\<in>set skipped. SGX_EPC_PAGE_RECLAIM_IN_PROGRESS \<notin> desc (pages s' p)"
      and "\<forall>e. refcount (encls s' e) = refcount (encls s e)"
      and "free_cnt_ok s \<longrightarrow> free_cnt_ok s'"
      and "secs_wf s'"
      by blast+
  qed
qed

text \<open>
  C6, as the code has it.  In a state where SECS pages are on no free, unsanitized
  or reclaimable list and no two enclaves share a SECS page, let \<open>isol\<close> be the
  pages that \<^verbatim>\<open>sgx_reclaim_epc_pages(n, ignore_age, NULL)\<close> isolates, and \<open>kept\<close> and
  \<open>skipped\<close> the pages its first loop accepts and skips.  If the call returns, the
  count it returns is the number of accepted pages and is at most \<open>n\<close> (0 for a
  negative \<open>n\<close>); every accepted page is on the free list of its section with both
  reclaim flags clear; the reclaimable list of every LRU is what isolation left of
  it followed by the skipped pages of that LRU, in order; every skipped page has
  \<^verbatim>\<open>RECLAIM_IN_PROGRESS\<close> clear; and the reference count of every enclave is what it
  was before the call, so every reference taken at isolation has been released.
  The count does not include SECS pages that the writeback of a last child frees.
\<close>

theorem sgx_reclaim_epc_pages_spec:
  assumes "secs_wf s"
    and "sgx_reclaim_epc_pages x n ignore_age s = Inr (cnt, s')"
    and "isol = fst (snd (sgx_isolate_epc_pages None n [] s))"
    and "s1 = snd (snd (sgx_isolate_epc_pages None n [] s))"
    and "kept = fst (reclaim_scan x ignore_age isol 0 s1)"
    and "skipped = fst (snd (reclaim_scan x ignore_age isol 0 s1))"
  shows "cnt = int (length kept) \<and> cnt \<le> max 0 n \<and>
         length kept + length skipped = length isol \<and>
         (\<forall>p\<in>set kept. p \<in> set (page_list (sgx_epc_sections s' (section_idx (pages s p)))) \<and>
              desc (pages s' p) \<inter> SGX_EPC_PAGE_RECLAIM_FLAGS = {}) \<and>
         (\<forall>c. reclaimable (lrus s' c) =
              reclaimable (lrus s1 c) @ filter (\<lambda>p. sgx_lru s p = c) skipped) \<and>
         (\<forall>p\<in>set skipped. SGX_EPC_PAGE_RECLAIM_IN_PROGRESS \<notin> desc (pages s' p)) \<and>
         (\<forall>e. refcount (encls s' e) = refcount (encls s e))"
proof -
  note a = reclaim_all [OF assms]
  have "cnt \<le> max 0 n" using a(1) a(2) a(3) by linarith
  with a show ?thesis by blast
qed

lemma reclaim_state_wf: "secs_wf reclaim_state"
  by (auto simp: secs_wf_def is_secs_def reclaim_state_def zero_state_def zero_encl_def
      split: if_splits)

lemma reclaim_state_run:
  "case sgx_reclaim_epc_pages reclaim_ext 16 False reclaim_state of
     Inl f \<Rightarrow> False
   | Inr (c, s') \<Rightarrow> c = 1"
  by code_simp

lemma reclaim_state_lists:
  "fst (reclaim_scan reclaim_ext False (fst (snd (sgx_isolate_epc_pages None 16 [] reclaim_state))) 0
     (snd (snd (sgx_isolate_epc_pages None 16 [] reclaim_state)))) = [2]"
  "fst (snd (reclaim_scan reclaim_ext False (fst (snd (sgx_isolate_epc_pages None 16 [] reclaim_state))) 0
     (snd (snd (sgx_isolate_epc_pages None 16 [] reclaim_state))))) = [3]"
  by code_simp+

theorem sgx_reclaim_epc_pages_spec_witness:
  "secs_wf reclaim_state \<and>
   sgx_reclaim_epc_pages reclaim_ext 16 False reclaim_state =
     Inr (1, snd (projr (sgx_reclaim_epc_pages reclaim_ext 16 False reclaim_state))) \<and>
   2 \<in> set (page_list (sgx_epc_sections
        (snd (projr (sgx_reclaim_epc_pages reclaim_ext 16 False reclaim_state)))
        (section_idx (pages reclaim_state 2)))) \<and>
   SGX_EPC_PAGE_RECLAIM_IN_PROGRESS \<notin> desc (pages
        (snd (projr (sgx_reclaim_epc_pages reclaim_ext 16 False reclaim_state))) 3) \<and>
   (\<forall>e. refcount (encls (snd (projr (sgx_reclaim_epc_pages reclaim_ext 16 False reclaim_state))) e) =
        refcount (encls reclaim_state e))"
proof -
  have h2: "sgx_reclaim_epc_pages reclaim_ext 16 False reclaim_state =
     Inr (1, snd (projr (sgx_reclaim_epc_pages reclaim_ext 16 False reclaim_state)))"
    using reclaim_state_run
    by (cases "sgx_reclaim_epc_pages reclaim_ext 16 False reclaim_state") auto
  note t = sgx_reclaim_epc_pages_spec [OF reclaim_state_wf h2 refl refl refl refl,
      unfolded reclaim_state_lists]
  show ?thesis
    using reclaim_state_wf h2 t by simp
qed

text \<open>
  C6, as the claim has it: the count returned is the number of pages moved back to
  free lists.  In \<open>reclaim_state\<close> the call returns 1: page 2 is written back, page 3
  is young.  Page 2 was the last child of enclave 1, so \<^verbatim>\<open>sgx_reclaimer_write\<close>
  also writes back and frees the SECS page 8: two pages have entered the free list
  of section 0.
\<close>

theorem sgx_reclaim_epc_pages_count_counterexample:
  "page_list (sgx_epc_sections reclaim_state 0) = [] \<and>
   (case sgx_reclaim_epc_pages reclaim_ext 16 False reclaim_state of
      Inl f \<Rightarrow> False
    | Inr (c, s') \<Rightarrow> c = 1 \<and> page_list (sgx_epc_sections s' 0) = [8, 2] \<and>
        free_cnt (sgx_epc_sections s' 0) = 2)"
  by code_simp

subsection \<open>Allocation when the free lists are empty\<close>

lemma alloc_sections_empty:
  "\<forall>i\<in>set is. page_list (sgx_epc_sections s i) = [] \<Longrightarrow> alloc_sections is s = (Inl ENOMEM, s)"
  by (induction "is") (simp_all add: uu_sgx_alloc_epc_page_from_section_def)

lemma uu_alloc_empty:
  "\<forall>i. i < sgx_nr_epc_sections s \<longrightarrow> page_list (sgx_epc_sections s i) = [] \<Longrightarrow>
   uu_sgx_alloc_epc_page s = (Inl ENOMEM, s)"
  by (simp add: uu_sgx_alloc_epc_page_def alloc_sections_empty)

lemmas alloc_loop_induct =
  alloc_loop.raw_induct [where xa = "(((x, own), reclaim), s)" for x own reclaim s,
    unfolded prod.case]

lemma alloc_sections_hit:
  "find (\<lambda>i. page_list (sgx_epc_sections s i) \<noteq> []) is = Some i \<Longrightarrow>
   alloc_sections is s =
     (Inr (hd (page_list (sgx_epc_sections s i))),
      s\<lparr>sgx_epc_sections := (sgx_epc_sections s)
          (i := (sgx_epc_sections s i)\<lparr>page_list := tl (page_list (sgx_epc_sections s i)),
                  free_cnt := free_cnt (sgx_epc_sections s i) - 1\<rparr>)\<rparr>)"
  by (induction "is")
     (auto simp: uu_sgx_alloc_epc_page_from_section_def split: list.splits if_splits)

lemma alloc_loop_hit:
  assumes "find (\<lambda>i. page_list (sgx_epc_sections s i) \<noteq> []) [0..<sgx_nr_epc_sections s] = Some i"
    and "p = hd (page_list (sgx_epc_sections s i))"
  shows "alloc_loop x own reclaim s =
     Some (Inr (Inr p,
       s\<lparr>sgx_epc_sections := (sgx_epc_sections s)
            (i := (sgx_epc_sections s i)\<lparr>page_list := tl (page_list (sgx_epc_sections s i)),
                    free_cnt := free_cnt (sgx_epc_sections s i) - 1\<rparr>),
         pages := (pages s)(p := (pages s p)\<lparr>owner := own\<rparr>)\<rparr>))"
  by (subst alloc_loop.simps)
     (simp add: uu_sgx_alloc_epc_page_def alloc_sections_hit [OF assms(1)] assms(2))

lemma alloc_hit:
  assumes "find (\<lambda>i. page_list (sgx_epc_sections s i) \<noteq> []) [0..<sgx_nr_epc_sections s] = Some i"
    and "p = hd (page_list (sgx_epc_sections s i))"
  shows "\<exists>s'. sgx_alloc_epc_page x own reclaim s = Some (Inr (Inr p, s')) \<and>
      pages s' = (pages s)(p := (pages s p)\<lparr>owner := own\<rparr>) \<and>
      sgx_epc_sections s' = (sgx_epc_sections s)
        (i := (sgx_epc_sections s i)\<lparr>page_list := tl (page_list (sgx_epc_sections s i)),
                free_cnt := free_cnt (sgx_epc_sections s i) - 1\<rparr>) \<and>
      sgx_nr_epc_sections s' = sgx_nr_epc_sections s \<and>
      lrus s' = lrus s \<and> encls s' = encls s \<and> encl_pages s' = encl_pages s \<and>
      mms s' = mms s \<and> (trace s' = trace s \<or> trace s' = trace s @ [WAKE_UP])"
  by (simp add: sgx_alloc_epc_page_def alloc_loop_hit [OF assms] emit_def)

lemma can_reclaim_quiet [simp]:
  "sgx_can_reclaim (emit ev s) = sgx_can_reclaim s"
  "sgx_can_reclaim (snd (call x ev s)) = sgx_can_reclaim s"
  by (simp_all add: sgx_can_reclaim_def emit_def call_def)

lemma alloc_sections_lrus [simp]: "lrus (snd (alloc_sections is s)) = lrus s"
  by (induction "is" arbitrary: s)
     (auto simp: uu_sgx_alloc_epc_page_from_section_def split: list.splits)

lemma alloc_loop_post:
  assumes "alloc_loop x own reclaim s = Some y"
  shows "alloc_post own reclaim y"
proof (rule alloc_loop_induct [where P = "\<lambda>x own reclaim s y. alloc_post own reclaim y", OF _ assms])
  fix f :: "ext \<Rightarrow> nat \<Rightarrow> bool \<Rightarrow> sgx_state \<Rightarrow> (fault + (errno + page_ref) \<times> sgx_state) option"
  fix x own reclaim s y
  assume IH: "\<And>a b c d y. f a b c d = Some y \<Longrightarrow> alloc_post b c y"
    and body: "(case uu_sgx_alloc_epc_page s of
        (Inl e, s1) \<Rightarrow>
          if \<not> sgx_can_reclaim s1 then Some (Inr (Inl ENOMEM, s1))
          else if \<not> reclaim then Some (Inr (Inl EBUSY, s1))
          else if fst (call x SIGNAL_PENDING s1) \<noteq> 0
          then Some (Inr (Inl ERESTARTSYS, snd (call x SIGNAL_PENDING s1)))
          else (case sgx_reclaim_epc_pages x SGX_NR_TO_SCAN False (snd (call x SIGNAL_PENDING s1)) of
                  Inl f \<Rightarrow> Some (Inl f)
                | Inr (c, s2) \<Rightarrow> f x own reclaim s2)
      | (Inr entry, s1) \<Rightarrow>
          Some (Inr (Inr entry, s1\<lparr>pages := (pages s1)(entry := (pages s1 entry)\<lparr>owner := own\<rparr>)\<rparr>))) =
      Some y"
  obtain r s1 where u: "uu_sgx_alloc_epc_page s = (r, s1)"
    by (cases "uu_sgx_alloc_epc_page s")
  show "alloc_post own reclaim y"
  proof (cases r)
    case (Inr entry)
    with u body show ?thesis by (auto simp: alloc_post_def)
  next
    case (Inl e)
    show ?thesis
    proof (cases "\<not> sgx_can_reclaim s1 \<or> \<not> reclaim \<or> fst (call x SIGNAL_PENDING s1) \<noteq> 0")
      case True
      with u Inl body show ?thesis
        by (auto simp: alloc_post_def split: if_splits)
    next
      case False
      show ?thesis
      proof (cases "sgx_reclaim_epc_pages x SGX_NR_TO_SCAN False (snd (call x SIGNAL_PENDING s1))")
        case (Inl g)
        with u \<open>r = Inl e\<close> False body show ?thesis
          by (auto simp: alloc_post_def)
      next
        case (Inr cs)
        obtain c s2 where cs: "cs = (c, s2)" by (cases cs)
        with u \<open>r = Inl e\<close> False Inr body have "f x own reclaim s2 = Some y"
          by simp
        then show ?thesis by (rule IH)
      qed
    qed
  qed
qed

lemma alloc_post_final:
  assumes "sgx_alloc_epc_page x own reclaim s = Some y"
  shows "alloc_post own reclaim y"
proof (cases "alloc_loop x own reclaim s")
  case None
  with assms show ?thesis by (simp add: sgx_alloc_epc_page_def)
next
  case (Some z)
  note p = alloc_loop_post [OF Some]
  show ?thesis
  proof (cases z)
    case (Inl f)
    with assms Some p show ?thesis by (auto simp: sgx_alloc_epc_page_def alloc_post_def)
  next
    case (Inr rs)
    obtain r s1 where rs: "rs = (r, s1)" by (cases rs)
    with assms Some Inr p show ?thesis
      by (auto simp: sgx_alloc_epc_page_def alloc_post_def emit_def sgx_can_reclaim_def)
  qed
qed

lemma nr_basic [simp]:
  "sgx_nr_epc_sections (emit ev s) = sgx_nr_epc_sections s"
  "sgx_nr_epc_sections (snd (call x ev s)) = sgx_nr_epc_sections s"
  "sgx_nr_epc_sections (snd (mmget_not_zero m s)) = sgx_nr_epc_sections s"
  "sgx_nr_epc_sections (mmput_async m s) = sgx_nr_epc_sections s"
  "sgx_nr_epc_sections (snd (kref_get_unless_zero e s)) = sgx_nr_epc_sections s"
  "sgx_nr_epc_sections (kref_put e s) = sgx_nr_epc_sections s"
  "sgx_nr_epc_sections (set_desc p d s) = sgx_nr_epc_sections s"
  "sgx_nr_epc_sections (set_reclaimable lru l s) = sgx_nr_epc_sections s"
  "sgx_nr_epc_sections (lru_add_tail_reclaimable lru p s) = sgx_nr_epc_sections s"
  "sgx_nr_epc_sections (list_add_tail_node p s) = sgx_nr_epc_sections s"
  "sgx_nr_epc_sections (set_cpumask e c s) = sgx_nr_epc_sections s"
  "sgx_nr_epc_sections (set_va_pages e vl s) = sgx_nr_epc_sections s"
  "sgx_nr_epc_sections (set_secs_epc_page e q s) = sgx_nr_epc_sections s"
  by (simp_all add: emit_def call_def mmget_not_zero_def mmput_async_def Let_def
      kref_get_unless_zero_def kref_put_def set_desc_def set_reclaimable_def
      lru_add_tail_reclaimable_def list_add_tail_node_def set_cpumask_def set_va_pages_def
      set_secs_epc_page_def)

lemma nr_isolate [simp]:
  "sgx_nr_epc_sections (snd (snd (sgx_isolate_epc_pages lru n dst s))) = sgx_nr_epc_sections s"
proof (induction lru n dst s rule: sgx_isolate_epc_pages.induct)
  case (1 lru n dst s)
  show ?case
    by (subst sgx_isolate_epc_pages.simps) (auto simp: 1 split: list.splits)
qed

lemma nr_age_mms [simp]:
  "sgx_nr_epc_sections (snd (age_mms x ep e ms r s)) = sgx_nr_epc_sections s"
  by (induction ms arbitrary: r s) (simp_all add: Let_def)

lemma nr_age [simp]:
  "sgx_nr_epc_sections (snd (sgx_reclaimer_age x p s)) = sgx_nr_epc_sections s"
  by (simp add: sgx_reclaimer_age_def Let_def)

lemma nr_block_mms [simp]:
  "sgx_nr_epc_sections (block_mms x e addr ms s) = sgx_nr_epc_sections s"
  by (induction ms arbitrary: s) (simp_all add: Let_def split: option.splits)

lemma nr_block [simp]:
  "sgx_nr_epc_sections (sgx_reclaimer_block x p s) = sgx_nr_epc_sections s"
  by (simp add: sgx_reclaimer_block_def Let_def)

lemma nr_reclaim_block [simp]:
  "sgx_nr_epc_sections (reclaim_block x ps s) = sgx_nr_epc_sections s"
  by (induction ps arbitrary: s) simp_all

lemma nr_ewb_finish [simp]:
  "sgx_nr_epc_sections (ewb_finish x ep e full vp vps off r s) = sgx_nr_epc_sections s"
  by (simp add: ewb_finish_def Let_def)

lemma nr_ewb:
  "sgx_encl_ewb x p s = Inr s' \<Longrightarrow> sgx_nr_epc_sections s' = sgx_nr_epc_sections s"
  by (auto simp: sgx_encl_ewb_def Let_def uu_sgx_encl_ewb_def sgx_encl_ewb_cpumask_eq
      split: list.splits option.splits if_splits)

lemma nr_reclaim_skip [simp]:
  "sgx_nr_epc_sections (reclaim_skip p s) = sgx_nr_epc_sections s"
  by (simp add: reclaim_skip_def Let_def)

lemma nr_reclaim_scan [simp]:
  "sgx_nr_epc_sections (snd (snd (snd (reclaim_scan x ia ps i s)))) = sgx_nr_epc_sections s"
proof (induction ps arbitrary: i s)
  case Nil
  then show ?case by simp
next
  case (Cons p ps)
  show ?case
    by (subst reclaim_scan.simps) (simp add: Let_def Cons.IH del: reclaim_scan.simps)
qed

lemma nr_drop:
  "sgx_drop_epc_page q s = Inr d \<Longrightarrow> sgx_nr_epc_sections (snd d) = sgx_nr_epc_sections s"
  by (auto simp: sgx_drop_epc_page_def list_del_def split: if_splits)

lemma nr_free [simp]:
  "sgx_nr_epc_sections (sgx_free_epc_page x q s) = sgx_nr_epc_sections s"
  by (auto simp: sgx_free_epc_page_def uu_sgx_free_epc_page_def Let_def split: option.splits)

lemma nr_write_secs:
  "write_secs x e s = Inr s' \<Longrightarrow> sgx_nr_epc_sections s' = sgx_nr_epc_sections s"
  by (auto simp: write_secs_def Let_def dest!: nr_drop nr_ewb
      split: option.splits sum.splits if_splits)

lemma nr_write_tail:
  "write_tail x ep e s = Inr s' \<Longrightarrow> sgx_nr_epc_sections s' = sgx_nr_epc_sections s"
  by (auto simp: write_tail_def Let_def dest!: nr_write_secs split: if_splits)

lemma nr_reclaimer_write:
  "sgx_reclaimer_write x p s = Inr s' \<Longrightarrow> sgx_nr_epc_sections s' = sgx_nr_epc_sections s"
  by (auto simp: sgx_reclaimer_write_def Let_def dest!: nr_write_tail nr_ewb
      split: sum.splits if_splits)

lemma nr_reclaim_release [simp]:
  "sgx_nr_epc_sections (reclaim_release p i s) = sgx_nr_epc_sections s"
  by (simp add: reclaim_release_def Let_def split: option.splits)

lemma nr_reclaim_write:
  "reclaim_write x ps i s = Inr (j, s') \<Longrightarrow> sgx_nr_epc_sections s' = sgx_nr_epc_sections s"
proof (induction ps arbitrary: i s)
  case Nil
  then show ?case by simp
next
  case (Cons p ps)
  from Cons.prems obtain s1 where w: "sgx_reclaimer_write x p s = Inr s1"
    and r: "reclaim_write x ps (i + 1) (reclaim_release p i s1) = Inr (j, s')"
    by (auto split: sum.splits)
  show ?case using Cons.IH [OF r] nr_reclaimer_write [OF w] by simp
qed

lemma nr_reclaim:
  "sgx_reclaim_epc_pages x n ia s = Inr (c, s') \<Longrightarrow>
   sgx_nr_epc_sections s' = sgx_nr_epc_sections s"
  by (auto simp: sgx_reclaim_epc_pages_def Let_def dest!: nr_reclaim_write
      split: if_splits sum.splits)

lemma find_nonempty:
  "k \<in> set is \<Longrightarrow> P k \<Longrightarrow> \<exists>i. find P is = Some i"
  by (induction "is") auto

lemma reclaim_progress:
  assumes wf: "secs_wf s"
    and r: "sgx_reclaim_epc_pages x n ia s = Inr (c, s2)"
    and c: "0 < c"
    and idx: "\<forall>q. section_idx (pages s q) < sgx_nr_epc_sections s"
  shows "\<exists>k. find (\<lambda>i. page_list (sgx_epc_sections s2 i) \<noteq> []) [0..<sgx_nr_epc_sections s2] = Some k"
proof -
  note a = reclaim_all [OF wf r refl refl refl refl]
  from a(1) c obtain p where p: "p \<in> set (fst (reclaim_scan x ia
      (fst (snd (sgx_isolate_epc_pages None n [] s))) 0
      (snd (snd (sgx_isolate_epc_pages None n [] s)))))"
    by (cases "fst (reclaim_scan x ia
      (fst (snd (sgx_isolate_epc_pages None n [] s))) 0
      (snd (snd (sgx_isolate_epc_pages None n [] s))))") auto
  with a(4) have "p \<in> set (page_list (sgx_epc_sections s2 (section_idx (pages s p))))"
    by blast
  then have ne: "page_list (sgx_epc_sections s2 (section_idx (pages s p))) \<noteq> []"
    by auto
  have "section_idx (pages s p) \<in> set [0..<sgx_nr_epc_sections s2]"
    using idx nr_reclaim [OF r] by simp
  from find_nonempty [OF this, of "\<lambda>i. page_list (sgx_epc_sections s2 i) \<noteq> []", OF ne]
  show ?thesis .
qed

lemma reclaim_state_retry:
  "case sgx_reclaim_epc_pages reclaim_ext SGX_NR_TO_SCAN False (emit SIGNAL_PENDING reclaim_state) of
     Inl f \<Rightarrow> False
   | Inr (c, s2) \<Rightarrow>
       find (\<lambda>i. page_list (sgx_epc_sections s2 i) \<noteq> []) [0..<sgx_nr_epc_sections s2] = Some 0 \<and>
       page_list (sgx_epc_sections s2 0) = [8, 2] \<and> c = 1"
  by code_simp




subsection \<open>The free counters of the sections\<close>

lemma from_section_ok:
  "free_cnt_ok s \<Longrightarrow> free_cnt_ok (snd (uu_sgx_alloc_epc_page_from_section i s))"
  by (auto simp: uu_sgx_alloc_epc_page_from_section_def free_cnt_ok_def split: list.splits)

lemma from_section_wf:
  "secs_wf s \<Longrightarrow> secs_wf (snd (uu_sgx_alloc_epc_page_from_section i s))"
  by (auto simp: uu_sgx_alloc_epc_page_from_section_def secs_wf_def is_secs_def split: list.splits)
     (metis list.set_intros(2))

lemma sections_call [simp]: "sgx_epc_sections (snd (call x ev s)) = sgx_epc_sections s"
  by (simp add: call_def emit_def)

lemma alloc_sections_ok:
  "free_cnt_ok s \<Longrightarrow> free_cnt_ok (snd (alloc_sections is s))"
proof (induction "is" arbitrary: s)
  case Nil
  then show ?case by simp
next
  case (Cons i "is")
  obtain r s1 where f: "uu_sgx_alloc_epc_page_from_section i s = (r, s1)"
    by (cases "uu_sgx_alloc_epc_page_from_section i s")
  have "free_cnt_ok s1" using from_section_ok [OF Cons.prems, of i] f by simp
  then show ?case using f Cons.IH [of s1] by (cases r) simp_all
qed

lemma alloc_sections_wf:
  "secs_wf s \<Longrightarrow> secs_wf (snd (alloc_sections is s))"
proof (induction "is" arbitrary: s)
  case Nil
  then show ?case by simp
next
  case (Cons i "is")
  obtain r s1 where f: "uu_sgx_alloc_epc_page_from_section i s = (r, s1)"
    by (cases "uu_sgx_alloc_epc_page_from_section i s")
  have "secs_wf s1" using from_section_wf [OF Cons.prems, of i] f by simp
  then show ?case using f Cons.IH [of s1] by (cases r) simp_all
qed

lemma uu_free_ok: "free_cnt_ok s \<Longrightarrow> free_cnt_ok (uu_sgx_free_epc_page p s)"
  by (auto simp: uu_sgx_free_epc_page_def list_add_tail_node_def free_cnt_ok_def Let_def emit_def
      split: option.splits)

lemma free_ok: "free_cnt_ok s \<Longrightarrow> free_cnt_ok (sgx_free_epc_page x p s)"
  using free_props(7) [of x p s] by (auto simp: free_cnt_ok_def)

lemma setup_pages_spec:
  "setup_pages x addr index sec is s = (True, s') \<Longrightarrow>
   (\<forall>k. k \<noteq> sec \<longrightarrow> sgx_epc_sections s' k = sgx_epc_sections s k) \<and>
   page_list (sgx_epc_sections s' sec) = page_list (sgx_epc_sections s sec) \<and>
   free_cnt (sgx_epc_sections s' sec) = free_cnt (sgx_epc_sections s sec) \<and>
   length (unsanitized_page_list (sgx_epc_sections s' sec)) =
     length (unsanitized_page_list (sgx_epc_sections s sec)) + length is"
proof (induction "is" arbitrary: s)
  case Nil
  then show ?case by simp
next
  case (Cons i "is")
  let ?r = "call x KZALLOC s"
  let ?p = "nat (fst ?r)"
  let ?s2 = "(snd ?r)\<lparr>pages := (pages (snd ?r))(?p := \<lparr>pa = addr + push_bit 12 (of_nat i),
                              section_idx = index, desc = {}, owner = 0, epc_cg = None,
        list_poison = False\<rparr>)\<rparr>"
  let ?s3 = "?s2\<lparr>sgx_epc_sections := (sgx_epc_sections ?s2)
                          (sec := (sgx_epc_sections ?s2 sec)\<lparr>unsanitized_page_list :=
                               unsanitized_page_list (sgx_epc_sections ?s2 sec) @ [?p]\<rparr>)\<rparr>"
  have nz: "fst ?r \<noteq> 0" and r: "setup_pages x addr index sec is ?s3 = (True, s')"
    using Cons.prems by (auto simp: Let_def split: if_splits)
  note ih = Cons.IH [OF r]
  have s3: "\<And>k. k \<noteq> sec \<Longrightarrow> sgx_epc_sections ?s3 k = sgx_epc_sections s k"
    "page_list (sgx_epc_sections ?s3 sec) = page_list (sgx_epc_sections s sec)"
    "free_cnt (sgx_epc_sections ?s3 sec) = free_cnt (sgx_epc_sections s sec)"
    "length (unsanitized_page_list (sgx_epc_sections ?s3 sec)) =
       Suc (length (unsanitized_page_list (sgx_epc_sections s sec)))"
    by (simp_all add: call_def emit_def)
  show ?case using ih by (simp add: s3)
qed

lemma setup_section_ok:
  assumes "sgx_setup_epc_section x addr sz index sec s = (True, s')" and "free_cnt_ok s"
  shows "free_cnt_ok s'"
    and "page_list (sgx_epc_sections s' sec) = []"
    and "free_cnt (sgx_epc_sections s' sec) = drop_bit 12 sz"
    and "length (unsanitized_page_list (sgx_epc_sections s' sec)) = unat (drop_bit 12 sz)"
proof -
  let ?r = "call x (MEMREMAP addr sz) s"
  let ?s1 = "(snd ?r)\<lparr>sgx_epc_sections := (sgx_epc_sections (snd ?r))
                          (sec := (sgx_epc_sections (snd ?r) sec)
                             \<lparr>page_list := [], unsanitized_page_list := []\<rparr>)\<rparr>"
  obtain t where l: "setup_pages x addr index sec [0..<unat (drop_bit 12 sz)] ?s1 = (True, t)"
    and s': "s' = t\<lparr>sgx_epc_sections := (sgx_epc_sections t)
                          (sec := (sgx_epc_sections t sec)\<lparr>free_cnt := drop_bit 12 sz\<rparr>)\<rparr>"
    using assms(1)
    by (cases "setup_pages x addr index sec [0..<unat (drop_bit 12 sz)] ?s1")
       (auto simp: sgx_setup_epc_section_def Let_def split: if_splits)
  note sp = setup_pages_spec [OF l]
  have o: "\<And>k. k \<noteq> sec \<Longrightarrow> sgx_epc_sections s' k = sgx_epc_sections s k"
    using sp by (simp add: s' call_def emit_def)
  show p: "page_list (sgx_epc_sections s' sec) = []" using sp by (simp add: s')
  show f: "free_cnt (sgx_epc_sections s' sec) = drop_bit 12 sz" by (simp add: s')
  show u: "length (unsanitized_page_list (sgx_epc_sections s' sec)) = unat (drop_bit 12 sz)"
    using sp by (simp add: s')
  show "free_cnt_ok s'"
    unfolding free_cnt_ok_def
  proof
    fix k
    show "free_cnt (sgx_epc_sections s' k) =
       of_nat (length (page_list (sgx_epc_sections s' k)) +
               length (unsanitized_page_list (sgx_epc_sections s' k)))"
    proof (cases "k = sec")
      case True
      then show ?thesis by (simp add: p f u)
    next
      case False
      then show ?thesis using assms(2) o unfolding free_cnt_ok_def by simp
    qed
  qed
qed

lemma setup_pages_frame:
  "(\<forall>k. k \<noteq> sec \<longrightarrow>
      sgx_epc_sections (snd (setup_pages x addr index sec is s)) k = sgx_epc_sections s k) \<and>
   free_cnt (sgx_epc_sections (snd (setup_pages x addr index sec is s)) sec) =
     free_cnt (sgx_epc_sections s sec)"
proof (induction "is" arbitrary: s)
  case Nil
  then show ?case by simp
next
  case (Cons i "is")
  show ?case
    by (simp add: Let_def Cons.IH)
qed

lemma setup_section_fail:
  assumes "sgx_setup_epc_section x addr sz index sec s = (False, s')" and "free_cnt_ok s"
    and "free_cnt (sgx_epc_sections s sec) = 0"
  shows "free_cnt_ok s'"
proof (cases "fst (call x (MEMREMAP addr sz) s) = 0")
  case True
  with assms(1) have "s' = snd (call x (MEMREMAP addr sz) s)"
    by (simp add: sgx_setup_epc_section_def Let_def)
  with assms(2) show ?thesis by (simp add: free_cnt_ok_def)
next
  case False
  let ?r = "call x (MEMREMAP addr sz) s"
  let ?s1 = "(snd ?r)\<lparr>sgx_epc_sections := (sgx_epc_sections (snd ?r))
                          (sec := (sgx_epc_sections (snd ?r) sec)
                             \<lparr>page_list := [], unsanitized_page_list := []\<rparr>)\<rparr>"
  let ?l = "setup_pages x addr index sec [0..<unat (drop_bit 12 sz)] ?s1"
  have s': "s' = sgx_free_epc_section sec (snd ?l)"
    using assms(1) False
    by (auto simp: sgx_setup_epc_section_def Let_def split: if_splits)
  note fr = setup_pages_frame [of sec x addr index "[0..<unat (drop_bit 12 sz)]" ?s1]
  have o: "\<And>k. k \<noteq> sec \<Longrightarrow> sgx_epc_sections s' k = sgx_epc_sections s k"
    using fr by (simp add: s' sgx_free_epc_section_def emit_def)
  have c: "free_cnt (sgx_epc_sections s' sec) = 0"
    "page_list (sgx_epc_sections s' sec) = []"
    "unsanitized_page_list (sgx_epc_sections s' sec) = []"
    using fr assms(3) by (simp_all add: s' sgx_free_epc_section_def emit_def)
  show ?thesis
    unfolding free_cnt_ok_def
  proof
    fix k
    show "free_cnt (sgx_epc_sections s' k) =
       of_nat (length (page_list (sgx_epc_sections s' k)) +
               length (unsanitized_page_list (sgx_epc_sections s' k)))"
      using c o assms(2) unfolding free_cnt_ok_def by (cases "k = sec") simp_all
  qed
qed

lemma sanitize_nil:
  "unsanitized_page_list (sgx_epc_sections s sec) = [] \<Longrightarrow>
   sgx_sanitize_section x sec l s = (l, s)"
  by (subst sgx_sanitize_section.simps) simp

lemma sanitize_cons:
  "unsanitized_page_list (sgx_epc_sections s sec) = p # rest \<Longrightarrow>
   sgx_sanitize_section x sec l s =
     (if fst (call x KTHREAD_SHOULD_STOP s) \<noteq> 0 then (l, snd (call x KTHREAD_SHOULD_STOP s))
      else if fst (call x (EREMOVE p) (snd (call x KTHREAD_SHOULD_STOP s))) = 0
      then sgx_sanitize_section x sec l
             (emit COND_RESCHED ((snd (call x (EREMOVE p) (snd (call x KTHREAD_SHOULD_STOP s))))
                \<lparr>sgx_epc_sections :=
                   (sgx_epc_sections (snd (call x (EREMOVE p) (snd (call x KTHREAD_SHOULD_STOP s)))))
                   (sec := (sgx_epc_sections (snd (call x (EREMOVE p) (snd (call x KTHREAD_SHOULD_STOP s)))) sec)
                      \<lparr>unsanitized_page_list := rest,
                       page_list := p # page_list (sgx_epc_sections
                         (snd (call x (EREMOVE p) (snd (call x KTHREAD_SHOULD_STOP s)))) sec)\<rparr>)\<rparr>))
      else sgx_sanitize_section x sec (l @ [p])
             (emit COND_RESCHED ((snd (call x (EREMOVE p) (snd (call x KTHREAD_SHOULD_STOP s))))
                \<lparr>sgx_epc_sections :=
                   (sgx_epc_sections (snd (call x (EREMOVE p) (snd (call x KTHREAD_SHOULD_STOP s)))))
                   (sec := (sgx_epc_sections (snd (call x (EREMOVE p) (snd (call x KTHREAD_SHOULD_STOP s)))) sec)
                      \<lparr>unsanitized_page_list := rest\<rparr>)\<rparr>)))"
  by (subst sgx_sanitize_section.simps) (simp add: Let_def)

lemma sanitize_spec:
  "unsanitized_page_list (sgx_epc_sections s sec) = u \<Longrightarrow>
   sgx_sanitize_section x sec l s = (l', s') \<Longrightarrow>
   (\<forall>k. k \<noteq> sec \<longrightarrow> sgx_epc_sections s' k = sgx_epc_sections s k) \<and>
   free_cnt (sgx_epc_sections s' sec) = free_cnt (sgx_epc_sections s sec) \<and>
   length (page_list (sgx_epc_sections s' sec)) +
     length (unsanitized_page_list (sgx_epc_sections s' sec)) + length l' =
   length (page_list (sgx_epc_sections s sec)) +
     length (unsanitized_page_list (sgx_epc_sections s sec)) + length l"
proof (induction u arbitrary: l s)
  case Nil
  then show ?case by (simp add: sanitize_nil)
next
  case (Cons p rest)
  let ?k = "call x KTHREAD_SHOULD_STOP s"
  show ?case
  proof (cases "fst ?k \<noteq> 0")
    case True
    with Cons.prems have "l' = l" "s' = snd ?k"
      by (simp_all add: sanitize_cons [OF Cons.prems(1)])
    then show ?thesis by simp
  next
    case go: False
    let ?r = "call x (EREMOVE p) (snd ?k)"
    let ?sc = "sgx_epc_sections (snd ?r) sec"
    show ?thesis
    proof (cases "fst ?r = 0")
      case True
      define s3 where "s3 = emit COND_RESCHED ((snd ?r)\<lparr>sgx_epc_sections := (sgx_epc_sections (snd ?r))
                             (sec := ?sc\<lparr>unsanitized_page_list := rest,
                                        page_list := p # page_list ?sc\<rparr>)\<rparr>)"
      have r: "sgx_sanitize_section x sec l s3 = (l', s')"
        using Cons.prems(2) go True
        by (simp add: sanitize_cons [OF Cons.prems(1)] s3_def)
      have u: "unsanitized_page_list (sgx_epc_sections s3 sec) = rest"
        by (simp add: s3_def emit_def)
      note ih = Cons.IH [OF u r]
      have s3: "\<And>k. k \<noteq> sec \<Longrightarrow> sgx_epc_sections s3 k = sgx_epc_sections s k"
        "free_cnt (sgx_epc_sections s3 sec) = free_cnt (sgx_epc_sections s sec)"
        "page_list (sgx_epc_sections s3 sec) = p # page_list (sgx_epc_sections s sec)"
        by (simp_all add: s3_def emit_def)
      show ?thesis using ih Cons.prems(1) by (simp add: s3 u)
    next
      case False
      define s3 where "s3 = emit COND_RESCHED ((snd ?r)\<lparr>sgx_epc_sections := (sgx_epc_sections (snd ?r))
                             (sec := ?sc\<lparr>unsanitized_page_list := rest\<rparr>)\<rparr>)"
      have r: "sgx_sanitize_section x sec (l @ [p]) s3 = (l', s')"
        using Cons.prems(2) go False
        by (simp add: sanitize_cons [OF Cons.prems(1)] s3_def)
      have u: "unsanitized_page_list (sgx_epc_sections s3 sec) = rest"
        by (simp add: s3_def emit_def)
      note ih = Cons.IH [OF u r]
      have s3: "\<And>k. k \<noteq> sec \<Longrightarrow> sgx_epc_sections s3 k = sgx_epc_sections s k"
        "free_cnt (sgx_epc_sections s3 sec) = free_cnt (sgx_epc_sections s sec)"
        "page_list (sgx_epc_sections s3 sec) = page_list (sgx_epc_sections s sec)"
        by (simp_all add: s3_def emit_def)
      show ?thesis using ih Cons.prems(1) by (simp add: s3 u)
    qed
  qed
qed

lemma sanitize_ok:
  assumes "free_cnt_ok s" and "fst (sgx_sanitize_section x sec l s) = l"
  shows "free_cnt_ok (snd (sgx_sanitize_section x sec l s))"
proof -
  obtain s' where r: "sgx_sanitize_section x sec l s = (l, s')"
    using assms(2) by (cases "sgx_sanitize_section x sec l s") auto
  note sp = sanitize_spec [OF refl r]
  have "free_cnt_ok s'"
    unfolding free_cnt_ok_def
  proof
    fix k
    show "free_cnt (sgx_epc_sections s' k) =
       of_nat (length (page_list (sgx_epc_sections s' k)) +
               length (unsanitized_page_list (sgx_epc_sections s' k)))"
    proof (cases "k = sec")
      case True
      have "length (page_list (sgx_epc_sections s' sec)) +
            length (unsanitized_page_list (sgx_epc_sections s' sec)) =
            length (page_list (sgx_epc_sections s sec)) +
            length (unsanitized_page_list (sgx_epc_sections s sec))"
        using sp by simp
      then show ?thesis using sp assms(1) True unfolding free_cnt_ok_def by simp
    next
      case False
      then show ?thesis using sp assms(1) unfolding free_cnt_ok_def by simp
    qed
  qed
  then show ?thesis by (simp add: r)
qed

lemma uu_alloc_ok: "free_cnt_ok s \<Longrightarrow> free_cnt_ok (snd (uu_sgx_alloc_epc_page s))"
  by (simp add: uu_sgx_alloc_epc_page_def alloc_sections_ok)

lemma uu_alloc_wf: "secs_wf s \<Longrightarrow> secs_wf (snd (uu_sgx_alloc_epc_page s))"
  by (simp add: uu_sgx_alloc_epc_page_def alloc_sections_wf)

lemma owner_update_preds:
  "free_cnt_ok (s\<lparr>pages := f\<rparr>) = free_cnt_ok s" "secs_wf (s\<lparr>pages := f\<rparr>) = secs_wf s"
  by (simp_all add: free_cnt_ok_def secs_wf_def is_secs_def)

lemma alloc_loop_inv:
  assumes "alloc_loop x own reclaim s = Some y"
  shows "alloc_inv s y"
proof (rule alloc_loop_induct [where P = "\<lambda>x own reclaim s y. alloc_inv s y", OF _ assms])
  fix f :: "ext \<Rightarrow> nat \<Rightarrow> bool \<Rightarrow> sgx_state \<Rightarrow> (fault + (errno + page_ref) \<times> sgx_state) option"
  fix x own reclaim s y
  assume IH: "\<And>a b c d y. f a b c d = Some y \<Longrightarrow> alloc_inv d y"
    and body: "(case uu_sgx_alloc_epc_page s of
        (Inl e, s1) \<Rightarrow>
          if \<not> sgx_can_reclaim s1 then Some (Inr (Inl ENOMEM, s1))
          else if \<not> reclaim then Some (Inr (Inl EBUSY, s1))
          else if fst (call x SIGNAL_PENDING s1) \<noteq> 0
          then Some (Inr (Inl ERESTARTSYS, snd (call x SIGNAL_PENDING s1)))
          else (case sgx_reclaim_epc_pages x SGX_NR_TO_SCAN False (snd (call x SIGNAL_PENDING s1)) of
                  Inl f \<Rightarrow> Some (Inl f)
                | Inr (c, s2) \<Rightarrow> f x own reclaim s2)
      | (Inr entry, s1) \<Rightarrow>
          Some (Inr (Inr entry, s1\<lparr>pages := (pages s1)(entry := (pages s1 entry)\<lparr>owner := own\<rparr>)\<rparr>))) =
      Some y"
  obtain r s1 where u: "uu_sgx_alloc_epc_page s = (r, s1)"
    by (cases "uu_sgx_alloc_epc_page s")
  have p1: "secs_wf s \<Longrightarrow> secs_wf s1" "free_cnt_ok s \<Longrightarrow> free_cnt_ok s1"
    using uu_alloc_wf [of s] uu_alloc_ok [of s] u by simp_all
  let ?s2 = "snd (call x SIGNAL_PENDING s1)"
  have p2: "secs_wf ?s2 = secs_wf s1" "free_cnt_ok ?s2 = free_cnt_ok s1"
    using core_preds(2,3) [OF core_call] by blast+
  show "alloc_inv s y"
  proof (cases r)
    case (Inr entry)
    with u body p1 show ?thesis by (auto simp: alloc_inv_def owner_update_preds)
  next
    case (Inl e)
    show ?thesis
    proof (cases "\<not> sgx_can_reclaim s1 \<or> \<not> reclaim \<or> fst (call x SIGNAL_PENDING s1) \<noteq> 0")
      case True
      with u Inl body p1 p2 show ?thesis
        by (auto simp: alloc_inv_def split: if_splits)
    next
      case False
      show ?thesis
      proof (cases "sgx_reclaim_epc_pages x SGX_NR_TO_SCAN False ?s2")
        case (Inl g)
        with u \<open>r = Inl e\<close> False body show ?thesis
          by (auto simp: alloc_inv_def)
      next
        case (Inr cs)
        obtain c s3 where cs: "cs = (c, s3)" by (cases cs)
        with u \<open>r = Inl e\<close> False Inr body have "f x own reclaim s3 = Some y"
          by simp
        then have i: "alloc_inv s3 y" by (rule IH)
        have rr: "sgx_reclaim_epc_pages x SGX_NR_TO_SCAN False ?s2 = Inr (c, s3)"
          using Inr cs by simp
        show ?thesis unfolding alloc_inv_def
        proof
          assume a: "secs_wf s \<and> free_cnt_ok s"
          then have w2: "secs_wf ?s2" and o2: "free_cnt_ok ?s2" using p1 p2 by simp_all
          have "secs_wf s3" "free_cnt_ok s3"
            using reclaim_all(8,9) [OF w2 rr refl refl refl refl] o2 by simp_all
          with i show "case y of Inl f \<Rightarrow> True | Inr (r, s') \<Rightarrow> free_cnt_ok s' \<and> secs_wf s'"
            by (simp add: alloc_inv_def)
        qed
      qed
    qed
  qed
qed

lemma alloc_ok:
  assumes "sgx_alloc_epc_page x own reclaim s = Some (Inr (r, s'))"
    and "secs_wf s" and "free_cnt_ok s"
  shows "free_cnt_ok s'" and "secs_wf s'"
proof -
  obtain s1 where l: "alloc_loop x own reclaim s = Some (Inr (r, s1))"
    and s': "s' = (if sgx_should_reclaim (of_nat (SGX_NR_LOW_PAGES x)) s1 then emit WAKE_UP s1 else s1)"
    using assms(1)
    by (auto simp: sgx_alloc_epc_page_def split: option.splits sum.splits)
  have "free_cnt_ok s1 \<and> secs_wf s1"
    using alloc_loop_inv [OF l] assms(2,3) by (simp add: alloc_inv_def)
  moreover have "free_cnt_ok s' = free_cnt_ok s1" "secs_wf s' = secs_wf s1"
    using core_preds(2,3) [OF core_emit, of WAKE_UP s1] by (auto simp: s')
  ultimately show "free_cnt_ok s'" and "secs_wf s'" by simp_all
qed

lemma reclaim_ok:
  assumes "sgx_reclaim_epc_pages x n ia s = Inr (cnt, s')" and "secs_wf s" and "free_cnt_ok s"
  shows "free_cnt_ok s'"
  using reclaim_all(8) [OF assms(2) assms(1) refl refl refl refl] assms(3) by simp

lemma sanitize_cnt:
  assumes "free_cnt_ok s" and "sgx_sanitize_section x sec [] s = (l', s')"
  shows "free_cnt (sgx_epc_sections s' sec) =
           of_nat (length (page_list (sgx_epc_sections s' sec)) +
                   length (unsanitized_page_list (sgx_epc_sections s' sec)) + length l')"
  using sanitize_spec [OF refl assms(2)] assms(1) by (simp add: free_cnt_ok_def)

lemma nr_sections_update_ok [simp]:
  "free_cnt_ok (s\<lparr>sgx_nr_epc_sections := n\<rparr>) = free_cnt_ok s"
  by (simp add: free_cnt_ok_def)

lemma zero_state_ok: "free_cnt_ok zero_state"
  by (simp add: free_cnt_ok_def zero_state_def)

lemma reclaim_state_ok: "free_cnt_ok reclaim_state"
  by (simp add: free_cnt_ok_def reclaim_state_def zero_state_def)

lemma reclaim_state_alloc:
  "case sgx_alloc_epc_page reclaim_ext 42 True reclaim_state of
     Some (Inr (Inr p, s')) \<Rightarrow> p = 8 \<and> owner (pages s' 8) = 42
   | _ \<Rightarrow> False"
  by code_simp

lemma boot_run:
  "fst (sgx_setup_epc_section boot_ext 0x80000000 0x2000 0 0 zero_state)"
  "fst (sgx_sanitize_section boot_ext 0 [] boot_state) = []"
  "unsanitized_page_list
     (sgx_epc_sections (snd (sgx_sanitize_section boot_ext 0 [] boot_state)) 0) = []"
  "\<not> fst (sgx_setup_epc_section boot_fail_ext 0x80000000 0x2000 0 0 zero_state)"
  by code_simp+




end
